theory Spec2Isabelle
  imports Main "HOL-Library.Word"
begin

unbundle bit_operations_syntax

section \<open>Data model of \<^verbatim>\<open>TSP.c\<close>\<close>

text \<open>
  Costs, table entries and visited masks are \<^verbatim>\<open>uint64_t\<close>: 64-bit words whose addition
  wraps. City indices, loop counters and next-city entries are \<^verbatim>\<open>int\<close>; they stay far
  below the range of a 32-bit \<^verbatim>\<open>int\<close>, so they are modelled as unbounded integers.
\<close>

type_synonym u64 = "64 word"

definition MAX_CITIES :: int where
  "MAX_CITIES = 64"

definition NO_PATH :: u64 where
  "NO_PATH = 18446744073709551615"

text \<open>
  \<^verbatim>\<open>x << k\<close> on a 64-bit unsigned operand. C defines it for \<open>0 \<le> k < 64\<close> only; every
  caller below checks that range before it shifts.
\<close>

definition shl :: "u64 \<Rightarrow> int \<Rightarrow> u64" where
  "shl x k = push_bit (nat k) x"

text \<open>
  The two-dimensional arrays are maps from index pairs: \<^verbatim>\<open>di[i][j]\<close> is \<open>di (i, j)\<close>,
  \<^verbatim>\<open>dp[current][visited]\<close> is \<open>dp t (current, visited)\<close>. The field \<open>computed\<close> is a
  ghost log that the C code does not have: it records, in order, the states whose entry
  is written at lines 82-83, that is the states whose candidate scan ran to its end.
\<close>

type_synonym matrix = "int \<times> int \<Rightarrow> u64"

record tables =
  dp :: "int \<times> u64 \<Rightarrow> u64"
  next_city :: "int \<times> u64 \<Rightarrow> int"
  computed :: "(int \<times> u64) list"

definition unvisited_bits :: "u64 \<Rightarrow> nat" where
  "unvisited_bits visited = card {k. k < 64 \<and> \<not> bit visited k}"

section \<open>The DP engine: \<^verbatim>\<open>tsp_dp\<close>\<close>

text \<open>
  \<open>tsp_dp\<close> is the function of lines 31-85 and \<open>scan\<close> is its \<^verbatim>\<open>for\<close> loop (lines 52-77),
  entered with \<open>next = 0\<close>, \<open>min_cost = NO_PATH\<close> and \<open>best_next_city = -1\<close>. The tables are
  passed in and returned. The result is \<open>None\<close> where C leaves the behaviour undefined:
  a shift \<^verbatim>\<open>1ULL << k\<close> with \<open>k\<close> outside \<open>0..63\<close>.
\<close>

function tsp_dp :: "int \<Rightarrow> u64 \<Rightarrow> int \<Rightarrow> matrix \<Rightarrow> tables \<Rightarrow> (u64 \<times> tables) option"
  and scan :: "int \<Rightarrow> int \<Rightarrow> u64 \<Rightarrow> int \<Rightarrow> matrix \<Rightarrow> u64 \<Rightarrow> int \<Rightarrow> tables
                 \<Rightarrow> (u64 \<times> int \<times> tables) option"
where
  "tsp_dp current visited city_count di t =
     (if city_count < 0 \<or> 64 \<le> city_count then None
      else if visited = shl 1 city_count - 1 then Some (0, t)
      else if dp t (current, visited) \<noteq> NO_PATH then Some (dp t (current, visited), t)
      else (case scan 0 current visited city_count di NO_PATH (- 1) t of
              None \<Rightarrow> None
            | Some (min_cost, best_next_city, t') \<Rightarrow>
                Some (min_cost,
                      t'\<lparr>dp := (dp t')((current, visited) := min_cost),
                         next_city := (next_city t')((current, visited) := best_next_city),
                         computed := computed t' @ [(current, visited)]\<rparr>)))"
| "scan next current visited city_count di min_cost best_next_city t =
     (if next < city_count then
        (if next < 0 \<or> 64 \<le> next then None
         else if visited AND shl 1 next = 0 \<and> di (current, next) \<noteq> NO_PATH then
           (case tsp_dp next (visited OR shl 1 next) city_count di t of
              None \<Rightarrow> None
            | Some (r, t') \<Rightarrow>
                (let cost = di (current, next) + r in
                 if cost < min_cost
                 then scan (next + 1) current visited city_count di cost next t'
                 else scan (next + 1) current visited city_count di min_cost best_next_city t'))
         else scan (next + 1) current visited city_count di min_cost best_next_city t)
      else Some (min_cost, best_next_city, t))"
  by pat_completeness auto

lemma bit_shl1: "0 \<le> k \<Longrightarrow> bit (shl 1 k :: u64) j \<longleftrightarrow> j = nat k \<and> k < 64"
  by (auto simp: shl_def bit_exp_iff)

lemma and_shl1_zero_iff:
  "0 \<le> k \<Longrightarrow> k < 64 \<Longrightarrow> (v AND shl 1 k = 0) = (\<not> bit (v :: u64) (nat k))"
  by (simp add: shl_def and_exp_eq_0_iff_not_bit)

lemma unvisited_decr:
  assumes "0 \<le> k" "k < 64" "v AND shl 1 k = 0"
  shows "unvisited_bits (v OR shl 1 k) < unvisited_bits v"
proof -
  have nb: "\<not> bit v (nat k)"
    using assms by (simp add: and_shl1_zero_iff)
  have "{j. j < 64 \<and> \<not> bit (v OR shl 1 k) j} \<subseteq> {j. j < 64 \<and> \<not> bit v j}"
    by (auto simp: bit_or_iff)
  moreover have "nat k \<in> {j. j < 64 \<and> \<not> bit v j}"
    using assms nb by simp
  moreover have "nat k \<notin> {j. j < 64 \<and> \<not> bit (v OR shl 1 k) j}"
    using assms by (simp add: bit_or_iff bit_shl1)
  ultimately have "{j. j < 64 \<and> \<not> bit (v OR shl 1 k) j} \<subset> {j. j < 64 \<and> \<not> bit v j}"
    by blast
  moreover have "finite {j. j < 64 \<and> \<not> bit v j}"
    by simp
  ultimately show ?thesis
    unfolding unvisited_bits_def by (rule psubset_card_mono[rotated])
qed

termination tsp_dp
  apply (relation "inv_image (measure id <*lex*> measure id)
            (\<lambda>x. case x of
               Inl (current, visited, city_count, di, t) \<Rightarrow>
                 (unvisited_bits visited, nat city_count + 1)
             | Inr (next, current, visited, city_count, di, m, b, t) \<Rightarrow>
                 (unvisited_bits visited, nat (city_count - next)))")
  apply (auto intro!: unvisited_decr)
  done

declare tsp_dp.simps [simp del] scan.simps [simp del]

text \<open>
  The tables as \<^verbatim>\<open>solve_tsp\<close> leaves them after its two allocation passes (lines 100-109):
  every distance \<open>NO_PATH\<close>, every next city \<open>-1\<close>.
\<close>

definition init_tables :: tables where
  "init_tables = \<lparr>dp = (\<lambda>_. NO_PATH), next_city = (\<lambda>_. - 1), computed = []\<rparr>"

section \<open>The recursion without the memo table\<close>

text \<open>
  The algorithm as section 4.2 of the specification words it, with no table: the
  candidates of a state are the cities \<open>next\<close> in \<open>[0, N)\<close> that are not in \<open>visited\<close> and
  have a real edge from \<open>current\<close>, taken in index order; the cost of a candidate is the
  edge cost plus the value of the successor state, added as the machine adds; the
  incumbent starts as \<open>(NO_PATH, -1)\<close> and is replaced only by a strictly smaller cost.
  \<open>solve\<close> returns the minimum and the next location recorded for it.
\<close>

definition candidates_from :: "int \<Rightarrow> int \<Rightarrow> u64 \<Rightarrow> int \<Rightarrow> matrix \<Rightarrow> int list" where
  "candidates_from first current visited city_count di =
     filter (\<lambda>next. visited AND shl 1 next = 0 \<and> di (current, next) \<noteq> NO_PATH)
       [first..city_count - 1]"

definition keep_first_min :: "u64 \<times> int \<Rightarrow> int \<times> u64 \<Rightarrow> u64 \<times> int" where
  "keep_first_min incumbent candidate =
     (if snd candidate < fst incumbent then (snd candidate, fst candidate) else incumbent)"

function solve :: "int \<Rightarrow> u64 \<Rightarrow> int \<Rightarrow> matrix \<Rightarrow> u64 \<times> int" where
  "solve current visited city_count di =
     (if city_count < 0 \<or> 64 \<le> city_count then (NO_PATH, - 1)
      else if visited = shl 1 city_count - 1 then (0, - 1)
      else foldl keep_first_min (NO_PATH, - 1)
             (map (\<lambda>next. (next, di (current, next)
                                   + fst (solve next (visited OR shl 1 next) city_count di)))
                (candidates_from 0 current visited city_count di)))"
  by pat_completeness auto
termination solve
  apply (relation "measure (\<lambda>(current, visited, city_count, di). unvisited_bits visited)")
   apply (auto simp: candidates_from_def intro!: unvisited_decr)
  done

declare solve.simps [simp del]

definition candidate_cost :: "int \<Rightarrow> u64 \<Rightarrow> int \<Rightarrow> matrix \<Rightarrow> int \<Rightarrow> int \<times> u64" where
  "candidate_cost current visited city_count di next =
     (next, di (current, next) + fst (solve next (visited OR shl 1 next) city_count di))"

text \<open>
  The tables agree with the recursion: an entry other than \<open>NO_PATH\<close> holds the value and
  the choice of its state, and where the distance is \<open>NO_PATH\<close> the next city is \<open>-1\<close>.
\<close>

definition valid :: "int \<Rightarrow> matrix \<Rightarrow> tables \<Rightarrow> bool" where
  "valid city_count di t =
     (\<forall>c v. (if dp t (c, v) = NO_PATH then next_city t (c, v) = - 1
             else (dp t (c, v), next_city t (c, v)) = solve c v city_count di))"

text \<open>
  Between two tables, the state \<open>s\<close> kept its two entries and was not computed again.
\<close>

definition entry_kept :: "tables \<Rightarrow> tables \<Rightarrow> int \<times> u64 \<Rightarrow> bool" where
  "entry_kept t t' s =
     (dp t' s = dp t s \<and> next_city t' s = next_city t s
      \<and> count_list (computed t') s = count_list (computed t) s)"

text \<open>
  The tables agree with the recursion, the entry of every state in the log is the value
  of that state, and every state whose entry is not \<open>NO_PATH\<close> stands in the log
  exactly once.
\<close>

definition computed_once :: "int \<Rightarrow> matrix \<Rightarrow> tables \<Rightarrow> bool" where
  "computed_once city_count di t =
     (valid city_count di t
      \<and> (\<forall>s\<in>set (computed t). dp t s = fst (solve (fst s) (snd s) city_count di))
      \<and> (\<forall>s. dp t s \<noteq> NO_PATH \<longrightarrow> count_list (computed t) s = 1))"

text \<open>The number of cities below \<open>city_count\<close> that are not in \<open>visited\<close>.\<close>

definition remaining :: "int \<Rightarrow> u64 \<Rightarrow> nat" where
  "remaining city_count visited = card {k. k < nat city_count \<and> \<not> bit visited k}"

text \<open>
  The complete visiting orders of claim C1: the orderings of the cities \<open>1..N-1\<close> after
  city 0 in which every consecutive pair is joined by a real edge.
\<close>

fun joined :: "matrix \<Rightarrow> int list \<Rightarrow> bool" where
  "joined di (a # b # rest) = (di (a, b) \<noteq> NO_PATH \<and> joined di (b # rest))"
| "joined di [a] = True"
| "joined di [] = True"

fun insert_everywhere :: "'a \<Rightarrow> 'a list \<Rightarrow> 'a list list" where
  "insert_everywhere x [] = [x] # []"
| "insert_everywhere x (y # ys) = (x # y # ys) # map ((#) y) (insert_everywhere x ys)"

fun orderings :: "'a list \<Rightarrow> 'a list list" where
  "orderings [] = [] # []"
| "orderings (x # xs) = concat (map (insert_everywhere x) (orderings xs))"

definition visiting_orders :: "int \<Rightarrow> matrix \<Rightarrow> int list list" where
  "visiting_orders city_count di =
     filter (joined di) (map ((#) 0) (orderings [1..city_count - 1]))"

section \<open>Outcomes of a run\<close>

text \<open>
  The fatal conditions of \<^verbatim>\<open>main\<close>, each with the line it writes to the error stream
  before it returns 1.
\<close>

datatype fatal = UsageError | OpenError | ReadError | NameTooLong | TooManyCities | EmptyInput

fun message :: "fatal \<Rightarrow> string" where
  "message UsageError = ''Usage: ./tsp_solver <filename>''"
| "message OpenError = ''Error opening the file''"
| "message ReadError = ''Error reading file''"
| "message NameTooLong =
     ''Error: City name exceeds the maximum allowed length of 511 characters.''"
| "message TooManyCities = ''Error: Too many cities (maximum is 64).''"
| "message EmptyInput = ''Error: The input file is empty or contains no valid data.''"

text \<open>
  The places where the C standard gives the program no meaning: a shift by 64 or more
  (\<^verbatim>\<open>1ULL << city_count\<close> with 64 cities), a write past the end of \<^verbatim>\<open>cities[MAX_CITIES]\<close>,
  and a \<^verbatim>\<open>%llu\<close> conversion whose value does not fit the \<^verbatim>\<open>uint64_t\<close> it is stored in.
\<close>

datatype undefined_behaviour = ShiftRange | CitiesOverrun | ScanOverflow

text \<open>
  A run ends in one of four ways. \<open>Done x\<close>: it returned normally with \<open>x\<close> (for \<^verbatim>\<open>main\<close>,
  the lines printed to the standard output, and exit code 0). \<open>Fatal e\<close>: \<^verbatim>\<open>main\<close> printed
  \<open>message e\<close> to the error stream and returned 1, with nothing on the standard output.
  \<open>Undefined u\<close>: the run reached undefined behaviour. \<open>Diverges\<close>: it does not return.
\<close>

datatype 'a run = Done 'a | Fatal fatal | Undefined undefined_behaviour | Diverges

fun exit_code :: "'a run \<Rightarrow> int option" where
  "exit_code (Done _) = Some 0"
| "exit_code (Fatal _) = Some 1"
| "exit_code (Undefined _) = None"
| "exit_code Diverges = None"

section \<open>Reconstruction and report: \<^verbatim>\<open>solve_tsp\<close>\<close>

text \<open>\<^verbatim>\<open>printf\<close> of a \<^verbatim>\<open>uint64_t\<close> with \<^verbatim>\<open>PRIu64\<close>: its decimal digits.\<close>

definition digit_char :: "int \<Rightarrow> char" where
  "digit_char d = ''0123456789'' ! nat d"

function decimal :: "int \<Rightarrow> string" where
  "decimal n = (if n < 10 then [digit_char n] else decimal (n div 10) @ [digit_char (n mod 10)])"
  by pat_completeness auto
termination decimal
  by (relation "measure nat") auto

declare decimal.simps [simp del]

text \<open>
  An emitted edge: the city left, the cost printed, the city entered. \<open>walk\<close> is the
  \<^verbatim>\<open>while (1)\<close> loop of lines 123-134. It returns the edges in the order printed, the
  final \<^verbatim>\<open>total_cost\<close> and the final \<^verbatim>\<open>visited\<close>. \<open>None\<close> stands for a loop that never
  reaches its \<^verbatim>\<open>break\<close>, \<open>Some None\<close> for a shift \<^verbatim>\<open>1ULL << next\<close> out of range.
\<close>

type_synonym edge = "int \<times> u64 \<times> int"

partial_function (option) walk ::
  "int \<Rightarrow> u64 \<Rightarrow> u64 \<Rightarrow> edge list \<Rightarrow> matrix \<Rightarrow> tables \<Rightarrow> (edge list \<times> u64 \<times> u64) option option"
where
  "walk current visited total_cost edges di t =
     (let next = next_city t (current, visited) in
      if next = - 1 then Some (Some (edges, total_cost, visited))
      else if next < 0 \<or> 64 \<le> next then Some None
      else walk next (visited OR shl 1 next) (total_cost + di (current, next))
             (edges @ [(current, di (current, next), next)]) di t)"

declare walk.simps [code]

text \<open>
  \<open>solve_tsp\<close> (lines 88-147) in two steps. \<open>route\<close> is what it computes: the result of
  the root call \<^verbatim>\<open>tsp_dp(0, 1, ...)\<close> on fresh tables and, when that is not \<open>NO_PATH\<close>, what
  the loop produced. \<open>report\<close> is what it prints, line by line. The allocations are
  assumed to succeed (the code does not test them); the indices \<open>current < city_count\<close>
  and \<open>visited < 2^city_count\<close> that the root call reaches lie inside the tables, which
  are modelled as total maps.
\<close>

definition route :: "int \<Rightarrow> matrix \<Rightarrow> (u64 \<times> (edge list \<times> u64 \<times> u64) option) run" where
  "route city_count di =
     (case tsp_dp 0 1 city_count di init_tables of
        None \<Rightarrow> Undefined ShiftRange
      | Some (result, t) \<Rightarrow>
          if result = NO_PATH then Done (result, None)
          else (case walk 0 1 0 [] di t of
                  None \<Rightarrow> Diverges
                | Some None \<Rightarrow> Undefined ShiftRange
                | Some (Some w) \<Rightarrow> Done (result, Some w)))"

definition edge_line :: "(int \<Rightarrow> string) \<Rightarrow> edge \<Rightarrow> string" where
  "edge_line cities e =
     (case e of (current, cost, next) \<Rightarrow>
        cities current @ '' -( '' @ decimal (uint cost) @ '' )-> '' @ cities next)"

definition report :: "(int \<Rightarrow> string) \<Rightarrow> (edge list \<times> u64 \<times> u64) option \<Rightarrow> string list" where
  "report cities w =
     (case w of
        None \<Rightarrow> [''No valid TSP route found.'']
      | Some (edges, total_cost, visited) \<Rightarrow>
          ''We will visit the cities in the following order:''
          # map (edge_line cities) edges
          @ [''Total cost: '' @ decimal (uint total_cost)])"

definition solve_tsp :: "int \<Rightarrow> matrix \<Rightarrow> (int \<Rightarrow> string) \<Rightarrow> string list run" where
  "solve_tsp city_count di cities =
     (case route city_count di of
        Done (result, w) \<Rightarrow> Done (report cities w)
      | Fatal e \<Rightarrow> Fatal e
      | Undefined u \<Rightarrow> Undefined u
      | Diverges \<Rightarrow> Diverges)"

section \<open>Reading the input: \<^verbatim>\<open>main\<close>\<close>

definition newline :: char where
  "newline = CHR 0x0A"

text \<open>
  \<^verbatim>\<open>fgets(line, n, file)\<close> on the unread rest of the file: at most \<open>n - 1\<close> characters, up to
  and including the first newline; \<open>None\<close> at the end of the file. It returns the buffer
  and what is left unread. The buffer is then read as a C string, which ends at its
  first NUL.
\<close>

fun fgets_chars :: "nat \<Rightarrow> string \<Rightarrow> string \<times> string" where
  "fgets_chars 0 s = ([], s)"
| "fgets_chars (Suc k) [] = ([], [])"
| "fgets_chars (Suc k) (c # s) =
     (if c = newline then ([c], s)
      else (case fgets_chars k s of (l, r) \<Rightarrow> (c # l, r)))"

definition fgets :: "nat \<Rightarrow> string \<Rightarrow> (string \<times> string) option" where
  "fgets n s = (if s = [] then None else Some (fgets_chars (n - 1) s))"

definition c_string :: "string \<Rightarrow> string" where
  "c_string buf = takeWhile (\<lambda>c. c \<noteq> CHR 0x00) buf"

definition isspace :: "char \<Rightarrow> bool" where
  "isspace c = (c \<in> set [CHR 0x20, CHR 0x09, CHR 0x0A, CHR 0x0B, CHR 0x0C, CHR 0x0D])"

definition isdigit :: "char \<Rightarrow> bool" where
  "isdigit c = (c \<in> set ''0123456789'')"

definition digit_value :: "char \<Rightarrow> int" where
  "digit_value c = of_char c - 48"

text \<open>
  \<^verbatim>\<open>sscanf(line, "%511[^-]-%511[^:]: %" SCNu64, city1, city2, &distance)\<close>.
  \<open>Items k\<close>: the call returned \<open>k < 3\<close>. \<open>Edge city1 city2 distance\<close>: it returned 3 with
  these values stored. \<open>Unrepresentable\<close>: the digits denote a number of \<open>2^64\<close> or more.
  A scan set \<^verbatim>\<open>%511[^c]\<close> takes the longest run of characters other than \<open>c\<close>, at most 511
  of them, and fails on an empty run. The number is read as \<^verbatim>\<open>strtoull\<close> reads it in
  base 10: white space, an optional sign, digits; a minus sign negates the value modulo
  \<open>2^64\<close>.
\<close>

datatype scanned = Items int | Edge string string u64 | Unrepresentable

definition scanset :: "char \<Rightarrow> string \<Rightarrow> string" where
  "scanset stop s = takeWhile (\<lambda>c. c \<noteq> stop) (take 511 s)"

definition scan_u64 :: "string \<Rightarrow> u64 option option" where
  "scan_u64 s =
     (let signed = (s \<noteq> [] \<and> (hd s = CHR ''-'' \<or> hd s = CHR ''+''));
          negative = (s \<noteq> [] \<and> hd s = CHR ''-'');
          ds = takeWhile isdigit (if signed then tl s else s)
      in if ds = [] then None
         else (let v = foldl (\<lambda>a c. 10 * a + digit_value c) 0 ds
               in if 18446744073709551616 \<le> v then Some None
                  else Some (Some (if negative then - word_of_int v else word_of_int v))))"

definition sscanf_edge :: "string \<Rightarrow> scanned" where
  "sscanf_edge line =
     (if line = [] then Items (- 1)
      else let city1 = scanset (CHR ''-'') line; r1 = drop (length city1) line in
        if city1 = [] then Items 0
        else if r1 = [] then Items 1
        else if hd r1 \<noteq> CHR ''-'' then Items 1
        else let city2 = scanset (CHR '':'') (tl r1); r2 = drop (length city2) (tl r1) in
          if city2 = [] then Items 1
          else if r2 = [] then Items 2
          else if hd r2 \<noteq> CHR '':'' then Items 2
          else (case scan_u64 (dropWhile isspace (tl r2)) of
                  None \<Rightarrow> Items 2
                | Some None \<Rightarrow> Unrepresentable
                | Some (Some distance) \<Rightarrow> Edge city1 city2 distance))"

text \<open>\<open>get_city_index\<close> (lines 17-25): the loop from \<open>i\<close> on, and the function.\<close>

function get_city_index_from :: "int \<Rightarrow> (int \<Rightarrow> string) \<Rightarrow> int \<Rightarrow> string \<Rightarrow> int" where
  "get_city_index_from i cities city_count city_name =
     (if i < city_count
      then (if cities i = city_name then i
            else get_city_index_from (i + 1) cities city_count city_name)
      else - 1)"
  by pat_completeness auto
termination get_city_index_from
  by (relation "measure (\<lambda>(i, cities, city_count, city_name). nat (city_count - i))") auto

definition get_city_index :: "(int \<Rightarrow> string) \<Rightarrow> int \<Rightarrow> string \<Rightarrow> int" where
  "get_city_index cities city_count city_name =
     get_city_index_from 0 cities city_count city_name"

text \<open>
  The locals of \<^verbatim>\<open>main\<close> that the read loop updates. \<open>register_city\<close> is lines 194-199
  (and 202-207): look the name up and, when it is new, store it at \<^verbatim>\<open>cities[city_count]\<close>.
  The array has \<open>MAX_CITIES\<close> slots, so that write is defined only while
  \<open>city_count < MAX_CITIES\<close>; \<open>None\<close> is the write past its end.
\<close>

record graph =
  main_cities :: "int \<Rightarrow> string"
  main_di :: matrix
  main_city_count :: int

definition init_graph :: graph where
  "init_graph = \<lparr>main_cities = (\<lambda>_. []), main_di = (\<lambda>_. NO_PATH), main_city_count = 0\<rparr>"

definition register_city :: "string \<Rightarrow> graph \<Rightarrow> (int \<times> graph) option" where
  "register_city city g =
     (let city_index = get_city_index (main_cities g) (main_city_count g) city in
      if city_index = - 1
      then (if MAX_CITIES \<le> main_city_count g then None
            else Some (main_city_count g,
                       g\<lparr>main_cities := (main_cities g)(main_city_count g := city),
                         main_city_count := main_city_count g + 1\<rparr>))
      else Some (city_index, g))"

definition set_di :: "int \<Rightarrow> int \<Rightarrow> u64 \<Rightarrow> graph \<Rightarrow> graph" where
  "set_di i j distance g = g\<lparr>main_di := (main_di g)((i, j) := distance)\<rparr>"

lemma fgets_chars_length: "fgets_chars k s = (l, r) \<Longrightarrow> length l + length r = length s"
  by (induction k s arbitrary: l r rule: fgets_chars.induct) (auto split: if_splits prod.splits)

lemma fgets_chars_nonempty: "fgets_chars (Suc k) (c # s) = (l, r) \<Longrightarrow> l \<noteq> []"
  by (auto split: if_splits prod.splits)

lemma fgets_shorter:
  assumes "fgets 100 s = Some (l, r)"
  shows "length r < length s"
proof -
  from assms obtain c s' where s: "s = c # s'"
    by (cases s) (auto simp: fgets_def)
  from assms have f: "fgets_chars (Suc 98) (c # s') = (l, r)"
    by (simp add: fgets_def s)
  have "l \<noteq> []"
    by (rule fgets_chars_nonempty[OF f])
  moreover have "length l + length r = length s"
    using fgets_chars_length[OF f] s by simp
  ultimately show ?thesis
    by (cases l) auto
qed

text \<open>The \<^verbatim>\<open>while (fgets(...))\<close> loop of lines 175-211, on the unread rest of the file.\<close>

function read_edges :: "string \<Rightarrow> graph \<Rightarrow> graph run" where
  "read_edges file g =
     (case fgets 100 file of
        None \<Rightarrow> Done g
      | Some (line, rest) \<Rightarrow>
          (case sscanf_edge (c_string line) of
             Items k \<Rightarrow> Fatal ReadError
           | Unrepresentable \<Rightarrow> Undefined ScanOverflow
           | Edge city1 city2 distance \<Rightarrow>
               if 512 \<le> length city1 \<or> 512 \<le> length city2 then Fatal NameTooLong
               else (case register_city city1 g of
                       None \<Rightarrow> Undefined CitiesOverrun
                     | Some (city1_index, g1) \<Rightarrow>
                         (case register_city city2 g1 of
                            None \<Rightarrow> Undefined CitiesOverrun
                          | Some (city2_index, g2) \<Rightarrow>
                              read_edges rest
                                (set_di city2_index city1_index distance
                                   (set_di city1_index city2_index distance g2))))))"
  by pat_completeness auto
termination read_edges
  by (relation "measure (\<lambda>(file, g). length file)") (auto dest: fgets_shorter)

declare read_edges.simps [simp del] get_city_index_from.simps [simp del]

text \<open>
  The city names that the loop reads, in the order of the file: the two names of every
  line, up to the end of the file or the first line that the loop does not accept.
  \<open>registered\<close> is the set of names in the slots of \<^verbatim>\<open>cities\<close> that are in use.
\<close>

function names_of :: "string \<Rightarrow> string list" where
  "names_of inp =
     (case fgets 100 inp of
        None \<Rightarrow> []
      | Some (line, rest) \<Rightarrow>
          (case sscanf_edge (c_string line) of
             Edge city1 city2 distance \<Rightarrow> city1 # city2 # names_of rest
           | Items k \<Rightarrow> []
           | Unrepresentable \<Rightarrow> []))"
  by pat_completeness auto
termination names_of
  by (relation "measure length") (auto dest: fgets_shorter)

declare names_of.simps [simp del]

definition registered :: "graph \<Rightarrow> string set" where
  "registered g = main_cities g ` {0..<main_city_count g}"

text \<open>
  \<^verbatim>\<open>main\<close> (lines 149-236), given \<^verbatim>\<open>argv\<close> and the file system as a map from file names
  to contents (\<open>None\<close>: \<^verbatim>\<open>fopen\<close> fails).
\<close>

definition main :: "string list \<Rightarrow> (string \<Rightarrow> string option) \<Rightarrow> string list run" where
  "main argv files =
     (if length argv \<noteq> 2 then Fatal UsageError
      else (case files (argv ! 1) of
              None \<Rightarrow> Fatal OpenError
            | Some file \<Rightarrow>
                (case read_edges file init_graph of
                   Done g \<Rightarrow>
                     if main_city_count g > MAX_CITIES then Fatal TooManyCities
                     else if main_city_count g = 0 then Fatal EmptyInput
                     else solve_tsp (main_city_count g) (main_di g) (main_cities g)
                 | Fatal e \<Rightarrow> Fatal e
                 | Undefined u \<Rightarrow> Undefined u
                 | Diverges \<Rightarrow> Diverges)))"

text \<open>
  A text file with the given lines, each ended by a newline, and the run of the program
  on it.
\<close>

definition text_file :: "string list \<Rightarrow> string" where
  "text_file ls = concat (map (\<lambda>l. l @ [newline]) ls)"

definition run_on :: "string list \<Rightarrow> string list run" where
  "run_on ls = main [''./tsp_solver'', ''input.txt'']
                 (\<lambda>name. if name = ''input.txt'' then Some (text_file ls) else None)"

section \<open>Example inputs\<close>

text \<open>
  Three cities: an edge of cost 5 between cities 0 and 1, and city 2 joined to no other
  city (the matrix a file with the lines \<^verbatim>\<open>A-B: 5\<close> and \<^verbatim>\<open>C-C: 1\<close> produces).
\<close>

definition di_isolated :: matrix where
  "di_isolated = (\<lambda>_. NO_PATH)((0, 1) := 5, (1, 0) := 5, (2, 2) := 1)"

text \<open>The same with an edge of cost 0 (lines \<^verbatim>\<open>A-B: 0\<close> and \<^verbatim>\<open>C-C: 1\<close>).\<close>

definition di_zero_edge :: matrix where
  "di_zero_edge = (\<lambda>_. NO_PATH)((0, 1) := 0, (1, 0) := 0, (2, 2) := 1)"

text \<open>
  The first scenario of the specification: \<^verbatim>\<open>A-B: 5\<close>, \<^verbatim>\<open>B-C: 10\<close>, \<^verbatim>\<open>A-C: 7\<close>.
\<close>

definition di_triangle :: matrix where
  "di_triangle = (\<lambda>_. NO_PATH)
     ((0, 1) := 5, (1, 0) := 5, (1, 2) := 10, (2, 1) := 10, (0, 2) := 7, (2, 0) := 7)"

text \<open>
  Five cities. City 3 is reached from city 0 through the cities 1 and 2 in either order,
  and city 4 is joined to no other city.
\<close>

definition di_two_orders :: matrix where
  "di_two_orders = (\<lambda>_. NO_PATH)
     ((0, 1) := 1, (1, 0) := 1, (0, 2) := 1, (2, 0) := 1, (1, 2) := 1, (2, 1) := 1,
      (1, 3) := 1, (3, 1) := 1, (2, 3) := 1, (3, 2) := 1, (4, 4) := 1)"

text \<open>A file of 33 lines that name 65 distinct cities.\<close>

definition sixty_five_cities :: "string list" where
  "sixty_five_cities =
     [''0-1: 1'', ''2-3: 1'', ''4-5: 1'', ''6-7: 1'', ''8-9: 1'', ''A-B: 1'',
      ''C-D: 1'', ''E-F: 1'', ''G-H: 1'', ''I-J: 1'', ''K-L: 1'', ''M-N: 1'',
      ''O-P: 1'', ''Q-R: 1'', ''S-T: 1'', ''U-V: 1'', ''W-X: 1'', ''Y-Z: 1'',
      ''a-b: 1'', ''c-d: 1'', ''e-f: 1'', ''g-h: 1'', ''i-j: 1'', ''k-l: 1'',
      ''m-n: 1'', ''o-p: 1'', ''q-r: 1'', ''s-t: 1'', ''u-v: 1'', ''w-x: 1'',
      ''y-z: 1'', ''_-.: 1'', ''~-0: 1'']"

text \<open>
  The tables of the triangle after the call \<^verbatim>\<open>tsp_dp(1, 3, ...)\<close> on fresh tables, and after
  the root call that follows it.
\<close>

definition tables_b :: tables where
  "tables_b = snd (the (tsp_dp 1 3 3 di_triangle init_tables))"

definition tables_root :: tables where
  "tables_root = snd (the (tsp_dp 0 1 3 di_triangle tables_b))"

text \<open>Every real edge of the matrix costs at most \<open>B\<close>.\<close>

definition edge_costs_at_most :: "matrix \<Rightarrow> nat \<Rightarrow> bool" where
  "edge_costs_at_most di B = (\<forall>i j. di (i, j) \<noteq> NO_PATH \<longrightarrow> unat (di (i, j)) \<le> B)"

text \<open>
  What claim C4 says of a state with result \<open>r\<close> and recorded next city \<open>b\<close>, made exact
  for the case that no candidate cost is below \<open>NO_PATH\<close>: then nothing is recorded.
  Otherwise \<open>b\<close> is a candidate whose cost is \<open>r\<close>, no candidate costs less, and no
  candidate of cost \<open>r\<close> has a smaller index.
\<close>

definition first_minimum :: "int \<Rightarrow> u64 \<Rightarrow> int \<Rightarrow> matrix \<Rightarrow> u64 \<Rightarrow> int \<Rightarrow> bool" where
  "first_minimum current visited city_count di r b =
     (let ks = candidates_from 0 current visited city_count di;
          cost = (\<lambda>k. snd (candidate_cost current visited city_count di k))
      in if r = NO_PATH then b = - 1 \<and> (\<forall>k\<in>set ks. cost k = NO_PATH)
         else b \<in> set ks \<and> cost b = r
              \<and> (\<forall>k\<in>set ks. r \<le> cost k \<and> (cost k = r \<longrightarrow> b \<le> k)))"

section \<open>The tables agree with the recursion\<close>

lemma valid_init: "valid city_count di init_tables"
  by (simp add: valid_def init_tables_def)

lemma valid_cached:
  "valid city_count di t \<Longrightarrow> dp t (c, v) \<noteq> NO_PATH \<Longrightarrow>
     dp t (c, v) = fst (solve c v city_count di) \<and> next_city t (c, v) = snd (solve c v city_count di)"
  unfolding valid_def by (metis fst_conv snd_conv)

lemma valid_none:
  "valid city_count di t \<Longrightarrow> dp t (c, v) = NO_PATH \<Longrightarrow> next_city t (c, v) = - 1"
  unfolding valid_def by metis

lemma validI:
  assumes "\<And>c v. dp t (c, v) \<noteq> NO_PATH \<Longrightarrow>
             dp t (c, v) = fst (solve c v city_count di) \<and> next_city t (c, v) = snd (solve c v city_count di)"
      and "\<And>c v. dp t (c, v) = NO_PATH \<Longrightarrow> next_city t (c, v) = - 1"
  shows "valid city_count di t"
  unfolding valid_def using assms by (auto simp: prod_eq_iff)

lemma keep_first_min_pair:
  "keep_first_min (m, b) c = (if snd c < m then (snd c, fst c) else (m, b))"
  by (simp add: keep_first_min_def)

lemma NO_PATH_max: "NO_PATH = - 1"
  by (simp add: NO_PATH_def)

lemma le_NO_PATH: "x \<le> NO_PATH"
  by (simp add: NO_PATH_max)

lemma less_NO_PATH: "x < m \<Longrightarrow> x < NO_PATH"
  using le_NO_PATH[of m] by simp

lemma keep_first_min_le: "fst (foldl keep_first_min (m, b) cs) \<le> m"
proof (induction cs arbitrary: m b)
  case Nil
  then show ?case by simp
next
  case (Cons c cs)
  show ?case
  proof (cases "snd c < m")
    case True
    have "fst (foldl keep_first_min (snd c, fst c) cs) \<le> snd c"
      by (rule Cons.IH)
    with True show ?thesis
      by (simp add: keep_first_min_pair)
  next
    case False
    with Cons.IH[of m b] show ?thesis
      by (simp add: keep_first_min_pair)
  qed
qed

lemma keep_first_min_none:
  "fst (foldl keep_first_min (m, b) cs) = NO_PATH \<Longrightarrow> (m = NO_PATH \<longrightarrow> b = - 1)
     \<Longrightarrow> snd (foldl keep_first_min (m, b) cs) = - 1"
proof (induction cs arbitrary: m b)
  case Nil
  then show ?case by simp
next
  case (Cons c cs)
  show ?case
  proof (cases "snd c < m")
    case True
    have "fst (foldl keep_first_min (snd c, fst c) cs) \<le> snd c"
      by (rule keep_first_min_le)
    moreover have "fst (foldl keep_first_min (snd c, fst c) cs) = NO_PATH"
      using Cons.prems(1) True by (simp add: keep_first_min_pair)
    moreover have "snd c < NO_PATH"
      using True by (rule less_NO_PATH)
    ultimately show ?thesis by simp
  next
    case False
    with Cons show ?thesis
      by (simp add: keep_first_min_pair)
  qed
qed

lemma candidates_from_step:
  "next < city_count \<Longrightarrow>
   candidates_from next current visited city_count di =
     (if visited AND shl 1 next = 0 \<and> di (current, next) \<noteq> NO_PATH then [next] else [])
     @ candidates_from (next + 1) current visited city_count di"
  by (simp add: candidates_from_def upto.simps[of "next"])

lemma candidates_from_done:
  "\<not> next < city_count \<Longrightarrow> candidates_from next current visited city_count di = []"
  by (simp add: candidates_from_def)

lemma tsp_dp_refines_solve:
  shows "0 \<le> city_count \<Longrightarrow> city_count < 64 \<Longrightarrow> valid city_count di t \<Longrightarrow>
           (\<exists>t'. tsp_dp current visited city_count di t
                    = Some (fst (solve current visited city_count di), t')
                 \<and> valid city_count di t')"
    and "0 \<le> nxt \<Longrightarrow> city_count < 64 \<Longrightarrow> valid city_count di t \<Longrightarrow>
           (\<exists>t'. scan nxt current visited city_count di min_cost best t
                    = Some (fst (foldl keep_first_min (min_cost, best)
                                   (map (candidate_cost current visited city_count di)
                                      (candidates_from nxt current visited city_count di))),
                            snd (foldl keep_first_min (min_cost, best)
                                   (map (candidate_cost current visited city_count di)
                                      (candidates_from nxt current visited city_count di))),
                            t')
                 \<and> valid city_count di t')"
proof (induction current visited city_count di t and nxt current visited city_count di min_cost best t
       rule: tsp_dp_scan.induct)
  case (1 current visited city_count di t)
  note prems = "1.prems"
  have rng: "\<not> (city_count < 0 \<or> 64 \<le> city_count)"
    using prems by auto
  show ?case
  proof (cases "visited = shl 1 city_count - 1")
    case True
    with rng prems show ?thesis
      by (simp add: tsp_dp.simps solve.simps)
  next
    case nf: False
    show ?thesis
    proof (cases "dp t (current, visited) \<noteq> NO_PATH")
      case True
      with prems(3) have "dp t (current, visited) = fst (solve current visited city_count di)"
        using valid_cached by blast
      with rng nf True prems show ?thesis
        by (simp add: tsp_dp.simps)
    next
      case False
      define F where "F = foldl keep_first_min (NO_PATH, - 1)
                            (map (candidate_cost current visited city_count di)
                               (candidates_from 0 current visited city_count di))"
      from "1.IH"[OF rng nf False] prems obtain t1 where
        sc: "scan 0 current visited city_count di NO_PATH (- 1) t = Some (fst F, snd F, t1)"
        and v1: "valid city_count di t1"
        unfolding F_def by auto
      have F: "F = solve current visited city_count di"
        unfolding F_def using rng nf
        by (subst solve.simps) (simp add: candidate_cost_def[abs_def])
      have none: "fst F = NO_PATH \<Longrightarrow> snd F = - 1"
        unfolding F_def by (rule keep_first_min_none) simp_all
      let ?t' = "t1\<lparr>dp := (dp t1)((current, visited) := fst F),
                     next_city := (next_city t1)((current, visited) := snd F),
                     computed := computed t1 @ [(current, visited)]\<rparr>"
      have "tsp_dp current visited city_count di t = Some (fst F, ?t')"
        using rng nf False sc by (simp add: tsp_dp.simps)
      moreover have "valid city_count di ?t'"
      proof (rule validI)
        fix c v
        assume "dp ?t' (c, v) \<noteq> NO_PATH"
        then show "dp ?t' (c, v) = fst (solve c v city_count di)
                     \<and> next_city ?t' (c, v) = snd (solve c v city_count di)"
          using valid_cached[OF v1, of c v] F by (cases "(c, v) = (current, visited)") auto
      next
        fix c v
        assume "dp ?t' (c, v) = NO_PATH"
        then show "next_city ?t' (c, v) = - 1"
          using valid_none[OF v1, of c v] none by (cases "(c, v) = (current, visited)") auto
      qed
      ultimately show ?thesis
        using F by simp
    qed
  qed
next
  case (2 nxt current visited city_count di min_cost best t)
  note prems = "2.prems"
  let ?cc = "candidate_cost current visited city_count di"
  let ?rest = "candidates_from (nxt + 1) current visited city_count di"
  show ?case
  proof (cases "nxt < city_count")
    case False
    with prems show ?thesis
      by (simp add: scan.simps candidates_from_done)
  next
    case lt: True
    then have rng: "\<not> (nxt < 0 \<or> 64 \<le> nxt)"
      using prems by auto
    show ?thesis
    proof (cases "visited AND shl 1 nxt = 0 \<and> di (current, nxt) \<noteq> NO_PATH")
      case cand: True
      define r where "r = fst (solve nxt (visited OR shl 1 nxt) city_count di)"
      define cost where "cost = di (current, nxt) + r"
      from "2.IH"(1)[OF lt rng cand] prems lt obtain t1 where
        sub: "tsp_dp nxt (visited OR shl 1 nxt) city_count di t = Some (r, t1)"
        and v1: "valid city_count di t1"
        unfolding r_def by auto
      have cc: "?cc nxt = (nxt, cost)"
        by (simp add: candidate_cost_def cost_def r_def)
      have cands: "candidates_from nxt current visited city_count di = nxt # ?rest"
        using candidates_from_step[OF lt, of current visited di] cand by simp
      have step: "scan nxt current visited city_count di min_cost best t =
                    (if cost < min_cost
                     then scan (nxt + 1) current visited city_count di cost nxt t1
                     else scan (nxt + 1) current visited city_count di min_cost best t1)"
        by (subst scan.simps) (simp add: lt rng cand sub Let_def cost_def)
      show ?thesis
      proof (cases "cost < min_cost")
        case True
        from "2.IH"(2)[OF lt rng cand sub refl cost_def True] prems v1
        obtain t' where
          "scan (nxt + 1) current visited city_count di cost nxt t1
             = Some (fst (foldl keep_first_min (cost, nxt) (map ?cc ?rest)),
                     snd (foldl keep_first_min (cost, nxt) (map ?cc ?rest)), t')"
          and "valid city_count di t'"
          by auto
        with True show ?thesis
          by (simp add: step cands cc keep_first_min_pair)
      next
        case False
        from "2.IH"(3)[OF lt rng cand sub refl cost_def False] prems v1
        obtain t' where
          "scan (nxt + 1) current visited city_count di min_cost best t1
             = Some (fst (foldl keep_first_min (min_cost, best) (map ?cc ?rest)),
                     snd (foldl keep_first_min (min_cost, best) (map ?cc ?rest)), t')"
          and "valid city_count di t'"
          by auto
        with False show ?thesis
          by (simp add: step cands cc keep_first_min_pair)
      qed
    next
      case nc: False
      have cands: "candidates_from nxt current visited city_count di = ?rest"
        using candidates_from_step[OF lt, of current visited di] nc by simp
      have step: "scan nxt current visited city_count di min_cost best t =
                    scan (nxt + 1) current visited city_count di min_cost best t"
        by (subst scan.simps) (simp only: lt rng nc if_True if_False)
      from "2.IH"(4)[OF lt rng nc] prems
      obtain t' where
        "scan (nxt + 1) current visited city_count di min_cost best t
           = Some (fst (foldl keep_first_min (min_cost, best) (map ?cc ?rest)),
                   snd (foldl keep_first_min (min_cost, best) (map ?cc ?rest)), t')"
        and "valid city_count di t'"
        by auto
      then show ?thesis
        by (simp add: step cands)
    qed
  qed
qed

lemma entry_kept_refl: "entry_kept t t s"
  by (simp add: entry_kept_def)

lemma entry_kept_trans: "entry_kept t t1 s \<Longrightarrow> entry_kept t1 t2 s \<Longrightarrow> entry_kept t t2 s"
  by (simp add: entry_kept_def)

lemma entry_kept_write:
  "s \<noteq> s' \<Longrightarrow>
   entry_kept t (t\<lparr>dp := (dp t)(s' := m), next_city := (next_city t)(s' := b),
                   computed := computed t @ [s']\<rparr>) s"
  by (simp add: entry_kept_def)

lemma cached_kept:
  shows "tsp_dp current visited city_count di t = Some (r, t') \<Longrightarrow> dp t s \<noteq> NO_PATH
           \<Longrightarrow> entry_kept t t' s"
    and "scan nxt current visited city_count di min_cost best t = Some (m, b, t') \<Longrightarrow>
           dp t s \<noteq> NO_PATH \<Longrightarrow> entry_kept t t' s"
proof (induction current visited city_count di t and nxt current visited city_count di min_cost best t
       arbitrary: r t' and m b t' rule: tsp_dp_scan.induct)
  case (1 current visited city_count di t)
  note run = "1.prems"(1) and s = "1.prems"(2)
  from run have rng: "\<not> (city_count < 0 \<or> 64 \<le> city_count)"
    by (subst (asm) tsp_dp.simps) (auto split: if_splits)
  show ?case
  proof (cases "visited = shl 1 city_count - 1 \<or> dp t (current, visited) \<noteq> NO_PATH")
    case True
    with run rng have "t' = t"
      by (subst (asm) tsp_dp.simps) (auto split: if_splits)
    then show ?thesis
      by (simp add: entry_kept_refl)
  next
    case False
    then have nf: "visited \<noteq> shl 1 city_count - 1" and nc: "\<not> dp t (current, visited) \<noteq> NO_PATH"
      by auto
    from run rng nf nc obtain m b t1 where
      sc: "scan 0 current visited city_count di NO_PATH (- 1) t = Some (m, b, t1)"
      and t': "t' = t1\<lparr>dp := (dp t1)((current, visited) := m),
                        next_city := (next_city t1)((current, visited) := b),
                        computed := computed t1 @ [(current, visited)]\<rparr>"
      by (subst (asm) tsp_dp.simps) (auto split: option.splits)
    have k1: "entry_kept t t1 s"
      by (rule "1.IH"[OF rng nf nc sc s])
    have "s \<noteq> (current, visited)"
      using s nc by auto
    then have "entry_kept t1 t' s"
      unfolding t' by (rule entry_kept_write)
    with k1 show ?thesis
      by (rule entry_kept_trans)
  qed
next
  case (2 nxt current visited city_count di min_cost best t)
  note run = "2.prems"(1) and s = "2.prems"(2)
  show ?case
  proof (cases "nxt < city_count")
    case False
    with run have "t' = t"
      by (subst (asm) scan.simps) simp
    then show ?thesis
      by (simp add: entry_kept_refl)
  next
    case lt: True
    with run have rng: "\<not> (nxt < 0 \<or> 64 \<le> nxt)"
      by (subst (asm) scan.simps) (auto split: if_splits)
    show ?thesis
    proof (cases "visited AND shl 1 nxt = 0 \<and> di (current, nxt) \<noteq> NO_PATH")
      case cand: True
      from run lt rng cand obtain r t1 where
        sub: "tsp_dp nxt (visited OR shl 1 nxt) city_count di t = Some (r, t1)"
        by (subst (asm) scan.simps) (auto split: option.splits)
      define cost where "cost = di (current, nxt) + r"
      have k1: "entry_kept t t1 s"
        by (rule "2.IH"(1)[OF lt rng cand sub s])
      then have s1: "dp t1 s \<noteq> NO_PATH"
        using s by (simp add: entry_kept_def)
      have "scan nxt current visited city_count di min_cost best t =
              (if cost < min_cost
               then scan (nxt + 1) current visited city_count di cost nxt t1
               else scan (nxt + 1) current visited city_count di min_cost best t1)"
        by (subst scan.simps) (simp add: lt rng cand sub Let_def cost_def)
      with run have step:
        "(if cost < min_cost
          then scan (nxt + 1) current visited city_count di cost nxt t1
          else scan (nxt + 1) current visited city_count di min_cost best t1) = Some (m, b, t')"
        by simp
      have "entry_kept t1 t' s"
      proof (cases "cost < min_cost")
        case True
        with step have "scan (nxt + 1) current visited city_count di cost nxt t1 = Some (m, b, t')"
          by simp
        then show ?thesis
          by (rule "2.IH"(2)[OF lt rng cand sub refl cost_def True _ s1])
      next
        case False
        with step have "scan (nxt + 1) current visited city_count di min_cost best t1 = Some (m, b, t')"
          by simp
        then show ?thesis
          by (rule "2.IH"(3)[OF lt rng cand sub refl cost_def False _ s1])
      qed
      with k1 show ?thesis
        by (rule entry_kept_trans)
    next
      case nc: False
      have "scan nxt current visited city_count di min_cost best t =
              scan (nxt + 1) current visited city_count di min_cost best t"
        by (subst scan.simps) (simp only: lt rng nc if_True if_False)
      with run have "scan (nxt + 1) current visited city_count di min_cost best t = Some (m, b, t')"
        by simp
      then show ?thesis
        by (rule "2.IH"(4)[OF lt rng nc _ s])
    qed
  qed
qed

lemma returned_value_stored:
  assumes "tsp_dp current visited city_count di t = Some (r, t')"
      and "visited \<noteq> shl 1 city_count - 1"
  shows "dp t' (current, visited) = r"
  using assms by (subst (asm) tsp_dp.simps) (auto split: if_splits option.splits)

lemma cached_hit:
  assumes "\<not> (city_count < 0 \<or> 64 \<le> city_count)" "visited \<noteq> shl 1 city_count - 1"
      and "dp t (current, visited) \<noteq> NO_PATH"
  shows "tsp_dp current visited city_count di t = Some (dp t (current, visited), t)"
  using assms by (subst tsp_dp.simps) simp

lemma computed_once_init: "computed_once city_count di init_tables"
  by (simp add: computed_once_def valid_init) (simp add: init_tables_def)

lemma computed_once_valid: "computed_once city_count di t \<Longrightarrow> valid city_count di t"
  unfolding computed_once_def by blast

lemma computed_once_logged:
  "computed_once city_count di t \<Longrightarrow> s \<in> set (computed t) \<Longrightarrow>
     dp t s = fst (solve (fst s) (snd s) city_count di)"
  unfolding computed_once_def by blast

lemma computed_once_count:
  "computed_once city_count di t \<Longrightarrow> dp t s \<noteq> NO_PATH \<Longrightarrow> count_list (computed t) s = 1"
  unfolding computed_once_def by blast

lemma count_list_pos_iff: "0 < count_list xs x \<longleftrightarrow> x \<in> set xs"
  using count_list_0_iff[of xs x] by auto

lemma untouched:
  shows "tsp_dp current visited city_count di t = Some (r, t') \<Longrightarrow>
           unvisited_bits visited \<le> unvisited_bits (snd s) \<Longrightarrow> s \<noteq> (current, visited) \<Longrightarrow>
           entry_kept t t' s"
    and "scan nxt current visited city_count di min_cost best t = Some (m, b, t') \<Longrightarrow>
           unvisited_bits visited \<le> unvisited_bits (snd s) \<Longrightarrow> entry_kept t t' s"
proof (induction current visited city_count di t and nxt current visited city_count di min_cost best t
       arbitrary: r t' and m b t' rule: tsp_dp_scan.induct)
  case (1 current visited city_count di t)
  note run = "1.prems"(1) and le = "1.prems"(2) and ne = "1.prems"(3)
  from run have rng: "\<not> (city_count < 0 \<or> 64 \<le> city_count)"
    by (subst (asm) tsp_dp.simps) (auto split: if_splits)
  show ?case
  proof (cases "visited = shl 1 city_count - 1 \<or> dp t (current, visited) \<noteq> NO_PATH")
    case True
    with run rng have "t' = t"
      by (subst (asm) tsp_dp.simps) (auto split: if_splits)
    then show ?thesis
      by (simp add: entry_kept_refl)
  next
    case False
    then have nf: "visited \<noteq> shl 1 city_count - 1" and nc: "\<not> dp t (current, visited) \<noteq> NO_PATH"
      by auto
    from run rng nf nc obtain m b t1 where
      sc: "scan 0 current visited city_count di NO_PATH (- 1) t = Some (m, b, t1)"
      and t': "t' = t1\<lparr>dp := (dp t1)((current, visited) := m),
                        next_city := (next_city t1)((current, visited) := b),
                        computed := computed t1 @ [(current, visited)]\<rparr>"
      by (subst (asm) tsp_dp.simps) (auto split: option.splits)
    have k1: "entry_kept t t1 s"
      by (rule "1.IH"[OF rng nf nc sc le])
    have "entry_kept t1 t' s"
      unfolding t' using ne by (rule entry_kept_write)
    with k1 show ?thesis
      by (rule entry_kept_trans)
  qed
next
  case (2 nxt current visited city_count di min_cost best t)
  note run = "2.prems"(1) and le = "2.prems"(2)
  show ?case
  proof (cases "nxt < city_count")
    case False
    with run have "t' = t"
      by (subst (asm) scan.simps) simp
    then show ?thesis
      by (simp add: entry_kept_refl)
  next
    case lt: True
    with run have rng: "\<not> (nxt < 0 \<or> 64 \<le> nxt)"
      by (subst (asm) scan.simps) (auto split: if_splits)
    show ?thesis
    proof (cases "visited AND shl 1 nxt = 0 \<and> di (current, nxt) \<noteq> NO_PATH")
      case cand: True
      from run lt rng cand obtain r t1 where
        sub: "tsp_dp nxt (visited OR shl 1 nxt) city_count di t = Some (r, t1)"
        by (subst (asm) scan.simps) (auto split: option.splits)
      define cost where "cost = di (current, nxt) + r"
      have less: "unvisited_bits (visited OR shl 1 nxt) < unvisited_bits visited"
        using rng cand by (intro unvisited_decr) auto
      then have le1: "unvisited_bits (visited OR shl 1 nxt) \<le> unvisited_bits (snd s)"
        using le by simp
      have ne1: "s \<noteq> (nxt, visited OR shl 1 nxt)"
        using less le by auto
      have k1: "entry_kept t t1 s"
        by (rule "2.IH"(1)[OF lt rng cand sub le1 ne1])
      have "scan nxt current visited city_count di min_cost best t =
              (if cost < min_cost
               then scan (nxt + 1) current visited city_count di cost nxt t1
               else scan (nxt + 1) current visited city_count di min_cost best t1)"
        by (subst scan.simps) (simp add: lt rng cand sub Let_def cost_def)
      with run have step:
        "(if cost < min_cost
          then scan (nxt + 1) current visited city_count di cost nxt t1
          else scan (nxt + 1) current visited city_count di min_cost best t1) = Some (m, b, t')"
        by simp
      have "entry_kept t1 t' s"
      proof (cases "cost < min_cost")
        case True
        with step have "scan (nxt + 1) current visited city_count di cost nxt t1 = Some (m, b, t')"
          by simp
        then show ?thesis
          by (rule "2.IH"(2)[OF lt rng cand sub refl cost_def True _ le])
      next
        case False
        with step have "scan (nxt + 1) current visited city_count di min_cost best t1 = Some (m, b, t')"
          by simp
        then show ?thesis
          by (rule "2.IH"(3)[OF lt rng cand sub refl cost_def False _ le])
      qed
      with k1 show ?thesis
        by (rule entry_kept_trans)
    next
      case nc: False
      have "scan nxt current visited city_count di min_cost best t =
              scan (nxt + 1) current visited city_count di min_cost best t"
        by (subst scan.simps) (simp only: lt rng nc if_True if_False)
      with run have "scan (nxt + 1) current visited city_count di min_cost best t = Some (m, b, t')"
        by simp
      then show ?thesis
        by (rule "2.IH"(4)[OF lt rng nc _ le])
    qed
  qed
qed

lemma computed_once_kept:
  shows "tsp_dp current visited city_count di t = Some (r, t') \<Longrightarrow>
           computed_once city_count di t \<Longrightarrow> computed_once city_count di t'"
    and "scan nxt current visited city_count di min_cost best t = Some (m, b, t') \<Longrightarrow>
           0 \<le> nxt \<Longrightarrow> city_count < 64 \<Longrightarrow>
           computed_once city_count di t \<Longrightarrow> computed_once city_count di t'"
proof (induction current visited city_count di t and nxt current visited city_count di min_cost best t
       arbitrary: r t' and m b t' rule: tsp_dp_scan.induct)
  case (1 current visited city_count di t)
  note run = "1.prems"(1) and inv = "1.prems"(2)
  from run have rng: "\<not> (city_count < 0 \<or> 64 \<le> city_count)"
    by (subst (asm) tsp_dp.simps) (auto split: if_splits)
  then have n0: "0 \<le> city_count" and n64: "city_count < 64"
    by auto
  from inv have v: "valid city_count di t"
    by (rule computed_once_valid)
  from tsp_dp_refines_solve(1)[OF n0 n64 v, of current visited] run
  have r: "r = fst (solve current visited city_count di)" and v': "valid city_count di t'"
    by auto
  show ?case
  proof (cases "visited = shl 1 city_count - 1 \<or> dp t (current, visited) \<noteq> NO_PATH")
    case True
    with run rng have "t' = t"
      by (subst (asm) tsp_dp.simps) (auto split: if_splits)
    with inv show ?thesis
      by simp
  next
    case False
    then have nf: "visited \<noteq> shl 1 city_count - 1" and nc: "\<not> dp t (current, visited) \<noteq> NO_PATH"
      by auto
    from run rng nf nc obtain m b t1 where
      sc: "scan 0 current visited city_count di NO_PATH (- 1) t = Some (m, b, t1)"
      and t': "t' = t1\<lparr>dp := (dp t1)((current, visited) := m),
                        next_city := (next_city t1)((current, visited) := b),
                        computed := computed t1 @ [(current, visited)]\<rparr>"
      and rm: "r = m"
      by (subst (asm) tsp_dp.simps) (auto split: option.splits)
    have inv1: "computed_once city_count di t1"
      by (rule "1.IH"[OF rng nf nc sc _ n64 inv]) simp
    have kept: "entry_kept t t1 (current, visited)"
      by (rule untouched(2)[OF sc]) simp
    have fresh: "(current, visited) \<notin> set (computed t1)" if "m \<noteq> NO_PATH"
    proof
      assume "(current, visited) \<in> set (computed t1)"
      then have "0 < count_list (computed t1) (current, visited)"
        by (simp add: count_list_pos_iff)
      then have "0 < count_list (computed t) (current, visited)"
        using kept by (simp add: entry_kept_def)
      then have "(current, visited) \<in> set (computed t)"
        by (simp add: count_list_pos_iff)
      then have "dp t (current, visited) = fst (solve current visited city_count di)"
        using computed_once_logged[OF inv, of "(current, visited)"] by simp
      with nc r rm that show False
        by simp
    qed
    have logged: "\<forall>s\<in>set (computed t'). dp t' s = fst (solve (fst s) (snd s) city_count di)"
    proof
      fix s
      assume a: "s \<in> set (computed t')"
      show "dp t' s = fst (solve (fst s) (snd s) city_count di)"
      proof (cases "s = (current, visited)")
        case True
        with r rm show ?thesis
          by (simp add: t')
      next
        case False
        with a have "s \<in> set (computed t1)"
          by (simp add: t')
        from computed_once_logged[OF inv1 this] False show ?thesis
          by (simp add: t')
      qed
    qed
    have counted: "\<forall>s. dp t' s \<noteq> NO_PATH \<longrightarrow> count_list (computed t') s = 1"
    proof (intro allI impI)
      fix s
      assume a: "dp t' s \<noteq> NO_PATH"
      show "count_list (computed t') s = 1"
      proof (cases "s = (current, visited)")
        case True
        with a have "m \<noteq> NO_PATH"
          by (simp add: t')
        from fresh[OF this] True show ?thesis
          by (simp add: t' count_list_0_iff)
      next
        case False
        with a have "dp t1 s \<noteq> NO_PATH"
          by (simp add: t')
        then have "count_list (computed t1) s = 1"
          by (rule computed_once_count[OF inv1])
        with False show ?thesis
          by (simp add: t')
      qed
    qed
    from v' logged counted show ?thesis
      unfolding computed_once_def by blast
  qed
next
  case (2 nxt current visited city_count di min_cost best t)
  note run = "2.prems"(1) and n0 = "2.prems"(2) and n64 = "2.prems"(3) and inv = "2.prems"(4)
  show ?case
  proof (cases "nxt < city_count")
    case False
    with run have "t' = t"
      by (subst (asm) scan.simps) simp
    with inv show ?thesis
      by simp
  next
    case lt: True
    with run have rng: "\<not> (nxt < 0 \<or> 64 \<le> nxt)"
      by (subst (asm) scan.simps) (auto split: if_splits)
    have n1: "0 \<le> nxt + 1"
      using n0 by simp
    show ?thesis
    proof (cases "visited AND shl 1 nxt = 0 \<and> di (current, nxt) \<noteq> NO_PATH")
      case cand: True
      from run lt rng cand obtain r t1 where
        sub: "tsp_dp nxt (visited OR shl 1 nxt) city_count di t = Some (r, t1)"
        by (subst (asm) scan.simps) (auto split: option.splits)
      define cost where "cost = di (current, nxt) + r"
      have inv1: "computed_once city_count di t1"
        by (rule "2.IH"(1)[OF lt rng cand sub inv])
      have "scan nxt current visited city_count di min_cost best t =
              (if cost < min_cost
               then scan (nxt + 1) current visited city_count di cost nxt t1
               else scan (nxt + 1) current visited city_count di min_cost best t1)"
        by (subst scan.simps) (simp add: lt rng cand sub Let_def cost_def)
      with run have step:
        "(if cost < min_cost
          then scan (nxt + 1) current visited city_count di cost nxt t1
          else scan (nxt + 1) current visited city_count di min_cost best t1) = Some (m, b, t')"
        by simp
      show ?thesis
      proof (cases "cost < min_cost")
        case True
        with step have "scan (nxt + 1) current visited city_count di cost nxt t1 = Some (m, b, t')"
          by simp
        then show ?thesis
          by (rule "2.IH"(2)[OF lt rng cand sub refl cost_def True _ n1 n64 inv1])
      next
        case False
        with step have "scan (nxt + 1) current visited city_count di min_cost best t1 = Some (m, b, t')"
          by simp
        then show ?thesis
          by (rule "2.IH"(3)[OF lt rng cand sub refl cost_def False _ n1 n64 inv1])
      qed
    next
      case nc: False
      have "scan nxt current visited city_count di min_cost best t =
              scan (nxt + 1) current visited city_count di min_cost best t"
        by (subst scan.simps) (simp only: lt rng nc if_True if_False)
      with run have "scan (nxt + 1) current visited city_count di min_cost best t = Some (m, b, t')"
        by simp
      then show ?thesis
        by (rule "2.IH"(4)[OF lt rng nc _ n1 n64 inv])
    qed
  qed
qed

lemma keep_first_min_fold:
  assumes "foldl keep_first_min (m, b) cs = (m', b')"
  shows "(m' = m \<and> b' = b \<and> (\<forall>x\<in>set cs. m \<le> snd x))
         \<or> (m' < m \<and> (\<exists>xs ys. cs = xs @ (b', m') # ys \<and> (\<forall>x\<in>set xs. m' < snd x)
                              \<and> (\<forall>x\<in>set ys. m' \<le> snd x)))"
  using assms
proof (induction cs arbitrary: m b)
  case Nil
  then show ?case by simp
next
  case (Cons c cs)
  show ?case
  proof (cases "snd c < m")
    case True
    with Cons.prems have f: "foldl keep_first_min (snd c, fst c) cs = (m', b')"
      by (simp add: keep_first_min_pair)
    from Cons.IH[OF f] show ?thesis
    proof
      assume a: "m' = snd c \<and> b' = fst c \<and> (\<forall>x\<in>set cs. snd c \<le> snd x)"
      then have "c # cs = [] @ (b', m') # cs"
        by simp
      moreover have "\<forall>x\<in>set []. m' < snd x"
        by simp
      moreover have "\<forall>x\<in>set cs. m' \<le> snd x"
        using a by simp
      ultimately have "\<exists>xs ys. c # cs = xs @ (b', m') # ys \<and> (\<forall>x\<in>set xs. m' < snd x)
                         \<and> (\<forall>x\<in>set ys. m' \<le> snd x)"
        by blast
      with a True show ?thesis
        by simp
    next
      assume "m' < snd c \<and> (\<exists>xs ys. cs = xs @ (b', m') # ys \<and> (\<forall>x\<in>set xs. m' < snd x)
                              \<and> (\<forall>x\<in>set ys. m' \<le> snd x))"
      then obtain xs ys where lt: "m' < snd c" and cs: "cs = xs @ (b', m') # ys"
        and xs: "\<forall>x\<in>set xs. m' < snd x" and ys: "\<forall>x\<in>set ys. m' \<le> snd x"
        by blast
      have "c # cs = (c # xs) @ (b', m') # ys"
        using cs by simp
      moreover have "\<forall>x\<in>set (c # xs). m' < snd x"
        using lt xs by simp
      ultimately have "\<exists>xs ys. c # cs = xs @ (b', m') # ys \<and> (\<forall>x\<in>set xs. m' < snd x)
                         \<and> (\<forall>x\<in>set ys. m' \<le> snd x)"
        using ys by blast
      moreover have "m' < m"
        using lt True by simp
      ultimately show ?thesis
        by simp
    qed
  next
    case False
    with Cons.prems have f: "foldl keep_first_min (m, b) cs = (m', b')"
      by (simp add: keep_first_min_pair)
    from Cons.IH[OF f] show ?thesis
    proof
      assume "m' = m \<and> b' = b \<and> (\<forall>x\<in>set cs. m \<le> snd x)"
      with False show ?thesis
        by simp
    next
      assume "m' < m \<and> (\<exists>xs ys. cs = xs @ (b', m') # ys \<and> (\<forall>x\<in>set xs. m' < snd x)
                            \<and> (\<forall>x\<in>set ys. m' \<le> snd x))"
      then obtain xs ys where lt: "m' < m" and cs: "cs = xs @ (b', m') # ys"
        and xs: "\<forall>x\<in>set xs. m' < snd x" and ys: "\<forall>x\<in>set ys. m' \<le> snd x"
        by blast
      have "c # cs = (c # xs) @ (b', m') # ys"
        using cs by simp
      moreover have "\<forall>x\<in>set (c # xs). m' < snd x"
        using lt xs False by auto
      ultimately have "\<exists>xs ys. c # cs = xs @ (b', m') # ys \<and> (\<forall>x\<in>set xs. m' < snd x)
                         \<and> (\<forall>x\<in>set ys. m' \<le> snd x)"
        using ys by blast
      with lt show ?thesis
        by simp
    qed
  qed
qed

lemma candidates_from_sorted: "sorted (candidates_from first current visited city_count di)"
  by (simp add: candidates_from_def sorted_wrt_filter)

lemma candidates_from_iff:
  "k \<in> set (candidates_from first current visited city_count di) \<longleftrightarrow>
     first \<le> k \<and> k < city_count \<and> visited AND shl 1 k = 0 \<and> di (current, k) \<noteq> NO_PATH"
  by (auto simp: candidates_from_def)

lemma first_min_choice:
  fixes f :: "int \<Rightarrow> u64"
  assumes fold: "foldl keep_first_min (NO_PATH, - 1) (map (\<lambda>k. (k, f k)) ks) = (m, b)"
      and srt: "sorted ks"
  shows "(m = NO_PATH \<and> b = - 1 \<and> (\<forall>k\<in>set ks. f k = NO_PATH))
         \<or> (m < NO_PATH \<and> b \<in> set ks \<and> f b = m
              \<and> (\<forall>k\<in>set ks. m \<le> f k \<and> (f k = m \<longrightarrow> b \<le> k)))"
  using keep_first_min_fold[OF fold]
proof
  assume "m = NO_PATH \<and> b = - 1 \<and> (\<forall>x\<in>set (map (\<lambda>k. (k, f k)) ks). NO_PATH \<le> snd x)"
  then have "m = NO_PATH" "b = - 1" and all: "\<forall>k\<in>set ks. NO_PATH \<le> f k"
    by auto
  have "\<forall>k\<in>set ks. f k = NO_PATH"
    using all le_NO_PATH by (meson order_antisym)
  with \<open>m = NO_PATH\<close> \<open>b = - 1\<close> show ?thesis
    by simp
next
  assume "m < NO_PATH \<and> (\<exists>xs ys. map (\<lambda>k. (k, f k)) ks = xs @ (b, m) # ys
             \<and> (\<forall>x\<in>set xs. m < snd x) \<and> (\<forall>x\<in>set ys. m \<le> snd x))"
  then obtain xs ys where lt: "m < NO_PATH" and split: "map (\<lambda>k. (k, f k)) ks = xs @ (b, m) # ys"
    and xs: "\<forall>x\<in>set xs. m < snd x" and ys: "\<forall>x\<in>set ys. m \<le> snd x"
    by blast
  from split obtain ks1 k ks2 where ks: "ks = ks1 @ k # ks2"
    and m1: "map (\<lambda>k. (k, f k)) ks1 = xs" and mk: "(k, f k) = (b, m)"
    and m2: "map (\<lambda>k. (k, f k)) ks2 = ys"
    by (auto simp: map_eq_append_conv map_eq_Cons_conv)
  then have kb: "k = b" and fb: "f b = m"
    by auto
  have before: "\<forall>j\<in>set ks1. m < f j"
    using xs m1 by auto
  have after: "\<forall>j\<in>set ks2. m \<le> f j"
    using ys m2 by auto
  have later: "\<forall>j\<in>set ks2. b \<le> j"
    using srt ks kb by (auto simp: sorted_append)
  have "\<forall>j\<in>set ks. m \<le> f j \<and> (f j = m \<longrightarrow> b \<le> j)"
    using before after later fb kb ks by auto
  moreover have "b \<in> set ks"
    using ks kb by simp
  ultimately show ?thesis
    using lt fb by simp
qed

lemma solve_unfold:
  assumes "0 \<le> city_count" "city_count < 64" "visited \<noteq> shl 1 city_count - 1"
  shows "solve current visited city_count di =
           foldl keep_first_min (NO_PATH, - 1)
             (map (\<lambda>k. (k, snd (candidate_cost current visited city_count di k)))
                (candidates_from 0 current visited city_count di))"
  using assms by (subst solve.simps) (simp add: candidate_cost_def)

lemma remaining_le: "remaining city_count visited \<le> nat city_count"
proof -
  have "card {k. k < nat city_count \<and> \<not> bit visited k} \<le> card {k. k < nat city_count}"
    by (rule card_mono) auto
  then show ?thesis
    by (simp add: remaining_def)
qed

lemma remaining_candidate:
  assumes "k \<in> set (candidates_from 0 current visited city_count di)" "city_count < 64"
  shows "remaining city_count (visited OR shl 1 k) < remaining city_count visited"
proof -
  from assms have k: "0 \<le> k" "k < city_count" "k < 64" and z: "visited AND shl 1 k = 0"
    by (auto simp: candidates_from_iff)
  have nb: "\<not> bit visited (nat k)"
    using k z by (simp add: and_shl1_zero_iff)
  have "{j. j < nat city_count \<and> \<not> bit (visited OR shl 1 k) j}
          \<subseteq> {j. j < nat city_count \<and> \<not> bit visited j}"
    by (auto simp: bit_or_iff)
  moreover have "nat k \<in> {j. j < nat city_count \<and> \<not> bit visited j}"
    using k nb by simp
  moreover have "nat k \<notin> {j. j < nat city_count \<and> \<not> bit (visited OR shl 1 k) j}"
    using k by (simp add: bit_or_iff bit_shl1)
  ultimately have "{j. j < nat city_count \<and> \<not> bit (visited OR shl 1 k) j}
                     \<subset> {j. j < nat city_count \<and> \<not> bit visited j}"
    by blast
  moreover have "finite {j. j < nat city_count \<and> \<not> bit visited j}"
    by simp
  ultimately show ?thesis
    unfolding remaining_def by (rule psubset_card_mono[rotated])
qed

lemma unat_NO_PATH: "unat NO_PATH = 2 ^ 64 - 1"
  by (simp add: NO_PATH_def)

lemma add_no_wrap:
  fixes a b :: u64
  assumes "unat a + unat b < 2 ^ 64 - 1"
  shows "unat (a + b) = unat a + unat b \<and> a + b \<noteq> NO_PATH"
proof -
  have "unat a + unat b < 2 ^ LENGTH(64)"
    using assms by simp
  then have eq: "unat (a + b) = unat a + unat b"
    by (rule unat_add_lem[THEN iffD1])
  then have "unat (a + b) \<noteq> unat NO_PATH"
    using assms by (simp add: unat_NO_PATH)
  then show ?thesis
    using eq by auto
qed

lemma add_NO_PATH:
  fixes a :: u64
  assumes "a + NO_PATH \<noteq> NO_PATH"
  shows "unat (a + NO_PATH) < unat a"
proof -
  from assms have "a \<noteq> 0"
    by auto
  have "unat (a + NO_PATH) = unat (a - 1)"
    by (simp add: NO_PATH_max)
  also have "\<dots> = unat a - 1"
    using \<open>a \<noteq> 0\<close> by (simp add: unat_minus_one)
  also have "\<dots> < unat a"
    using \<open>a \<noteq> 0\<close> by (simp add: unat_gt_0)
  finally show ?thesis .
qed

lemma solve_bound:
  "(\<forall>i j. di (i, j) \<noteq> NO_PATH \<longrightarrow> unat (di (i, j)) \<le> B) \<Longrightarrow>
   nat city_count * B < 2 ^ 64 - 1 \<Longrightarrow> 0 \<le> city_count \<Longrightarrow> city_count < 64 \<Longrightarrow>
   fst (solve current visited city_count di) \<noteq> NO_PATH \<Longrightarrow>
   unat (fst (solve current visited city_count di)) \<le> remaining city_count visited * B"
proof (induction current visited city_count di rule: solve.induct)
  case (1 current visited city_count di)
  note bd = "1.prems"(1) and nb = "1.prems"(2) and n0 = "1.prems"(3) and n64 = "1.prems"(4)
    and ne = "1.prems"(5)
  have rng: "\<not> (city_count < 0 \<or> 64 \<le> city_count)"
    using n0 n64 by simp
  show ?case
  proof (cases "visited = shl 1 city_count - 1")
    case True
    then have "fst (solve current visited city_count di) = 0"
      using rng by (subst solve.simps) simp
    then show ?thesis
      by simp
  next
    case nf: False
    let ?ks = "candidates_from 0 current visited city_count di"
    let ?f = "\<lambda>k. snd (candidate_cost current visited city_count di k)"
    obtain m b where mb: "solve current visited city_count di = (m, b)"
      by (cases "solve current visited city_count di")
    have fold: "foldl keep_first_min (NO_PATH, - 1) (map (\<lambda>k. (k, ?f k)) ?ks) = (m, b)"
      using solve_unfold[OF n0 n64 nf, of current di] mb by simp
    from first_min_choice[OF fold candidates_from_sorted] ne mb
    have mlt: "m < NO_PATH" and bk: "b \<in> set ?ks" and fb: "?f b = m"
      by auto
    define sub where "sub = fst (solve b (visited OR shl 1 b) city_count di)"
    have m: "m = di (current, b) + sub"
      using fb by (simp add: candidate_cost_def sub_def)
    have edge: "di (current, b) \<noteq> NO_PATH"
      using bk by (simp add: candidates_from_iff)
    have dB: "unat (di (current, b)) \<le> B"
      using bd edge by blast
    have rem: "remaining city_count (visited OR shl 1 b) < remaining city_count visited"
      by (rule remaining_candidate[OF bk n64])
    have "unat m \<le> remaining city_count visited * B"
    proof (cases "sub = NO_PATH")
      case True
      have "di (current, b) + NO_PATH \<noteq> NO_PATH"
        using mlt m True by auto
      then have "unat (di (current, b) + NO_PATH) < unat (di (current, b))"
        by (rule add_NO_PATH)
      then have "unat m \<le> 1 * B"
        using dB m True by simp
      also have "\<dots> \<le> remaining city_count visited * B"
        using rem by (intro mult_le_mono1) simp
      finally show ?thesis .
    next
      case False
      have "unat sub \<le> remaining city_count (visited OR shl 1 b) * B"
        using "1.IH"[OF rng nf bk bd nb n0 n64] False by (simp add: sub_def)
      then have "unat (di (current, b)) + unat sub
                   \<le> (1 + remaining city_count (visited OR shl 1 b)) * B"
        using dB by simp
      also have "\<dots> \<le> remaining city_count visited * B"
        using rem by (intro mult_le_mono1) simp
      finally have le: "unat (di (current, b)) + unat sub \<le> remaining city_count visited * B" .
      also have "\<dots> \<le> nat city_count * B"
        by (intro mult_le_mono1 remaining_le)
      finally have "unat (di (current, b)) + unat sub < 2 ^ 64 - 1"
        using nb by simp
      then have "unat m = unat (di (current, b)) + unat sub"
        unfolding m by (simp add: add_no_wrap)
      with le show ?thesis
        by simp
    qed
    with mb show ?thesis
      by simp
  qed
qed

section \<open>What \<^verbatim>\<open>main\<close> can return\<close>

lemma scanset_length: "length (scanset stop s) \<le> 511"
proof -
  have "length (takeWhile (\<lambda>c. c \<noteq> stop) (take 511 s)) \<le> length (take 511 s)"
    by (rule length_takeWhile_le)
  then show ?thesis
    by (simp add: scanset_def)
qed

lemma sscanf_edge_names:
  assumes "sscanf_edge line = Edge city1 city2 distance"
  shows "length city1 \<le> 511 \<and> length city2 \<le> 511"
proof -
  from assms have "city1 = scanset (CHR ''-'') line"
    by (auto simp: sscanf_edge_def Let_def split: if_splits option.splits)
  moreover from assms have "\<exists>s. city2 = scanset (CHR '':'') s"
    by (auto simp: sscanf_edge_def Let_def split: if_splits option.splits)
  ultimately show ?thesis
    using scanset_length by auto
qed

lemma read_edges_never_name_too_long: "read_edges inp g \<noteq> Fatal NameTooLong"
proof (induction inp g rule: read_edges.induct)
  case (1 inp g)
  show ?case
  proof (cases "fgets 100 inp")
    case None
    then show ?thesis
      by (subst read_edges.simps) simp
  next
    case (Some lr)
    obtain line rest where lr: "lr = (line, rest)"
      by (cases lr)
    show ?thesis
    proof (cases "sscanf_edge (c_string line)")
      case (Items k)
      with Some lr show ?thesis
        by (subst read_edges.simps) simp
    next
      case Unrepresentable
      with Some lr show ?thesis
        by (subst read_edges.simps) simp
    next
      case (Edge city1 city2 distance)
      have short: "\<not> (512 \<le> length city1 \<or> 512 \<le> length city2)"
        using sscanf_edge_names[OF Edge] by simp
      show ?thesis
      proof (cases "register_city city1 g")
        case None
        with Some lr Edge short show ?thesis
          by (subst read_edges.simps) simp
      next
        case r1: (Some ig1)
        obtain i1 g1 where ig1: "ig1 = (i1, g1)"
          by (cases ig1)
        show ?thesis
        proof (cases "register_city city2 g1")
          case None
          with Some lr Edge short r1 ig1 show ?thesis
            by (subst read_edges.simps) simp
        next
          case r2: (Some ig2)
          obtain i2 g2 where ig2: "ig2 = (i2, g2)"
            by (cases ig2)
          have "read_edges rest (set_di i2 i1 distance (set_di i1 i2 distance g2))
                  \<noteq> Fatal NameTooLong"
            using "1.IH"[OF Some lr[symmetric] Edge short r1 ig1[symmetric] _ ig2[symmetric]]
                  r2 ig1 by simp
          with Some lr Edge short r1 ig1 r2 ig2 show ?thesis
            by (subst read_edges.simps) simp
        qed
      qed
    qed
  qed
qed

lemma register_city_count:
  "register_city city g = Some (i, g') \<Longrightarrow> main_city_count g \<le> MAX_CITIES \<Longrightarrow>
     main_city_count g' \<le> MAX_CITIES"
  by (auto simp: register_city_def Let_def split: if_splits)

lemma set_di_count: "main_city_count (set_di i j distance g) = main_city_count g"
  by (simp add: set_di_def)

lemma read_edges_count:
  "read_edges inp g = Done g' \<Longrightarrow> main_city_count g \<le> MAX_CITIES \<Longrightarrow>
     main_city_count g' \<le> MAX_CITIES"
proof (induction inp g rule: read_edges.induct)
  case (1 inp g)
  note run = "1.prems"(1) and le = "1.prems"(2)
  show ?case
  proof (cases "fgets 100 inp")
    case None
    with run have "g' = g"
      by (subst (asm) read_edges.simps) simp
    with le show ?thesis
      by simp
  next
    case (Some lr)
    obtain line rest where lr: "lr = (line, rest)"
      by (cases lr)
    from run Some lr obtain city1 city2 distance where
      Edge: "sscanf_edge (c_string line) = Edge city1 city2 distance"
      by (subst (asm) read_edges.simps) (auto split: scanned.splits)
    have short: "\<not> (512 \<le> length city1 \<or> 512 \<le> length city2)"
      using sscanf_edge_names[OF Edge] by simp
    from run Some lr Edge short obtain i1 g1 where r1: "register_city city1 g = Some (i1, g1)"
      by (subst (asm) read_edges.simps) (auto split: option.splits)
    from run Some lr Edge short r1 obtain i2 g2 where r2: "register_city city2 g1 = Some (i2, g2)"
      by (subst (asm) read_edges.simps) (auto split: option.splits)
    from run Some lr Edge short r1 r2
    have rest: "read_edges rest (set_di i2 i1 distance (set_di i1 i2 distance g2)) = Done g'"
      by (subst (asm) read_edges.simps) simp
    have "main_city_count g2 \<le> MAX_CITIES"
      using register_city_count[OF r2] register_city_count[OF r1 le] by simp
    then have "main_city_count (set_di i2 i1 distance (set_di i1 i2 distance g2)) \<le> MAX_CITIES"
      by (simp add: set_di_count)
    with "1.IH"[OF Some lr[symmetric] Edge short r1 refl r2 refl rest] show ?thesis
      by simp
  qed
qed

lemma route_not_fatal: "route city_count di \<noteq> Fatal e"
  by (simp add: route_def split: option.splits)

lemma solve_tsp_not_fatal: "solve_tsp city_count di cities \<noteq> Fatal e"
  using route_not_fatal[of city_count di] by (simp add: solve_tsp_def split: run.splits)

lemma main_fatal_cases:
  assumes "main argv files = Fatal e"
  shows "e = UsageError \<or> e = OpenError \<or> e = EmptyInput
         \<or> (\<exists>inp g. read_edges inp init_graph = Done g \<and> MAX_CITIES < main_city_count g
                      \<and> e = TooManyCities)
         \<or> (\<exists>inp. read_edges inp init_graph = Fatal e)"
  using assms solve_tsp_not_fatal
  by (auto simp: main_def split: if_splits option.splits run.splits)

lemma init_graph_count: "main_city_count init_graph \<le> MAX_CITIES"
  by (simp add: init_graph_def MAX_CITIES_def)

lemma read_edges_not_capacity: "read_edges inp g \<noteq> Fatal TooManyCities"
proof (induction inp g rule: read_edges.induct)
  case (1 inp g)
  show ?case
  proof (cases "fgets 100 inp")
    case None
    then show ?thesis
      by (subst read_edges.simps) simp
  next
    case (Some lr)
    obtain line rest where lr: "lr = (line, rest)"
      by (cases lr)
    show ?thesis
    proof (cases "sscanf_edge (c_string line)")
      case (Items k)
      with Some lr show ?thesis
        by (subst read_edges.simps) simp
    next
      case Unrepresentable
      with Some lr show ?thesis
        by (subst read_edges.simps) simp
    next
      case (Edge city1 city2 distance)
      have short: "\<not> (512 \<le> length city1 \<or> 512 \<le> length city2)"
        using sscanf_edge_names[OF Edge] by simp
      show ?thesis
      proof (cases "register_city city1 g")
        case None
        with Some lr Edge short show ?thesis
          by (subst read_edges.simps) simp
      next
        case r1: (Some ig1)
        obtain i1 g1 where ig1: "ig1 = (i1, g1)"
          by (cases ig1)
        show ?thesis
        proof (cases "register_city city2 g1")
          case None
          with Some lr Edge short r1 ig1 show ?thesis
            by (subst read_edges.simps) simp
        next
          case r2: (Some ig2)
          obtain i2 g2 where ig2: "ig2 = (i2, g2)"
            by (cases ig2)
          have "read_edges rest (set_di i2 i1 distance (set_di i1 i2 distance g2))
                  \<noteq> Fatal TooManyCities"
            using "1.IH"[OF Some lr[symmetric] Edge short r1 ig1[symmetric] _ ig2[symmetric]]
                  r2 ig1 by simp
          with Some lr Edge short r1 ig1 r2 ig2 show ?thesis
            by (subst read_edges.simps) simp
        qed
      qed
    qed
  qed
qed

lemma main_never_capacity: "main argv files \<noteq> Fatal TooManyCities"
proof
  assume "main argv files = Fatal TooManyCities"
  from main_fatal_cases[OF this] read_edges_not_capacity
  obtain inp g where "read_edges inp init_graph = Done g" "MAX_CITIES < main_city_count g"
    by auto
  with read_edges_count[OF _ init_graph_count] show False
    by fastforce
qed

lemma main_never_name_too_long: "main argv files \<noteq> Fatal NameTooLong"
proof
  assume "main argv files = Fatal NameTooLong"
  from main_fatal_cases[OF this] read_edges_never_name_too_long show False
    by auto
qed

lemma register_city_overrun:
  assumes "main_city_count g = MAX_CITIES"
      and "get_city_index (main_cities g) (main_city_count g) city = - 1"
  shows "register_city city g = None"
  using assms by (simp add: register_city_def)

lemma get_city_index_from_found:
  "get_city_index_from i cities city_count city_name = r \<Longrightarrow> r \<noteq> - 1 \<Longrightarrow> 0 \<le> i \<Longrightarrow>
     i \<le> r \<and> r < city_count \<and> cities r = city_name"
proof (induction i cities city_count city_name rule: get_city_index_from.induct)
  case (1 i cities city_count city_name)
  show ?case
  proof (cases "i < city_count")
    case False
    with "1.prems" show ?thesis
      by (subst (asm) get_city_index_from.simps) simp
  next
    case lt: True
    show ?thesis
    proof (cases "cities i = city_name")
      case True
      with lt "1.prems" show ?thesis
        by (subst (asm) get_city_index_from.simps) auto
    next
      case False
      with lt "1.prems"(1)
      have "get_city_index_from (i + 1) cities city_count city_name = r"
        by (subst (asm) get_city_index_from.simps) simp
      from "1.IH"[OF lt False this "1.prems"(2)] "1.prems"(3) show ?thesis
        by simp
    qed
  qed
qed

lemma registered_new:
  assumes "0 \<le> main_city_count g"
  shows "registered (g\<lparr>main_cities := (main_cities g)(main_city_count g := city),
                       main_city_count := main_city_count g + 1\<rparr>)
           = insert city (registered g)"
proof -
  have "{0..<main_city_count g + 1} = insert (main_city_count g) {0..<main_city_count g}"
    using assms by auto
  then show ?thesis
    by (auto simp: registered_def)
qed

lemma register_city_registered:
  assumes "register_city city g = Some (i, g')" "0 \<le> main_city_count g"
  shows "registered g' = insert city (registered g) \<and> 0 \<le> main_city_count g'"
proof (cases "get_city_index (main_cities g) (main_city_count g) city = - 1")
  case True
  with assms(1) have "g' = g\<lparr>main_cities := (main_cities g)(main_city_count g := city),
                              main_city_count := main_city_count g + 1\<rparr>"
    by (auto simp: register_city_def split: if_splits)
  with registered_new[OF assms(2), of city] assms(2) show ?thesis
    by simp
next
  case False
  with assms(1) have g': "g' = g"
    by (auto simp: register_city_def Let_def split: if_splits)
  define r where "r = get_city_index_from 0 (main_cities g) (main_city_count g) city"
  have "r \<noteq> - 1"
    using False by (simp add: r_def get_city_index_def)
  with get_city_index_from_found[OF r_def[symmetric]]
  have "0 \<le> r \<and> r < main_city_count g \<and> main_cities g r = city"
    by simp
  then have "city \<in> registered g"
    by (auto simp: registered_def)
  with g' assms(2) show ?thesis
    by auto
qed

lemma registered_set_di: "registered (set_di i j distance g) = registered g"
  by (simp add: registered_def set_di_def)

lemma card_registered:
  assumes "0 \<le> main_city_count g" "main_city_count g \<le> MAX_CITIES"
  shows "card (registered g) \<le> 64"
proof -
  have "card (registered g) \<le> card {0..<main_city_count g}"
    unfolding registered_def by (rule card_image_le) simp
  also have "\<dots> \<le> 64"
    using assms by (simp add: MAX_CITIES_def)
  finally show ?thesis .
qed

lemma too_many_names:
  "0 \<le> main_city_count g \<Longrightarrow> main_city_count g \<le> MAX_CITIES \<Longrightarrow>
   64 < card (registered g \<union> set (names_of inp)) \<Longrightarrow>
   read_edges inp g = Undefined CitiesOverrun"
proof (induction inp g rule: read_edges.induct)
  case (1 inp g)
  note c0 = "1.prems"(1) and c64 = "1.prems"(2) and many = "1.prems"(3)
  have small: "card (registered g) \<le> 64"
    by (rule card_registered[OF c0 c64])
  show ?case
  proof (cases "fgets 100 inp")
    case None
    then have "names_of inp = []"
      by (subst names_of.simps) simp
    with many small show ?thesis
      by simp
  next
    case (Some lr)
    obtain line rest where lr: "lr = (line, rest)"
      by (cases lr)
    show ?thesis
    proof (cases "sscanf_edge (c_string line)")
      case (Items k)
      with Some lr have "names_of inp = []"
        by (subst names_of.simps) simp
      with many small show ?thesis
        by simp
    next
      case Unrepresentable
      with Some lr have "names_of inp = []"
        by (subst names_of.simps) simp
      with many small show ?thesis
        by simp
    next
      case (Edge city1 city2 distance)
      with Some lr have names: "names_of inp = city1 # city2 # names_of rest"
        by (subst names_of.simps) simp
      have short: "\<not> (512 \<le> length city1 \<or> 512 \<le> length city2)"
        using sscanf_edge_names[OF Edge] by simp
      show ?thesis
      proof (cases "register_city city1 g")
        case None
        with Some lr Edge short show ?thesis
          by (subst read_edges.simps) simp
      next
        case r1: (Some ig1)
        obtain i1 g1 where ig1: "ig1 = (i1, g1)"
          by (cases ig1)
        from register_city_registered[OF r1[unfolded ig1] c0]
        have reg1: "registered g1 = insert city1 (registered g)" and c1: "0 \<le> main_city_count g1"
          by auto
        have c1': "main_city_count g1 \<le> MAX_CITIES"
          by (rule register_city_count[OF r1[unfolded ig1] c64])
        show ?thesis
        proof (cases "register_city city2 g1")
          case None
          with Some lr Edge short r1 ig1 show ?thesis
            by (subst read_edges.simps) simp
        next
          case r2: (Some ig2)
          obtain i2 g2 where ig2: "ig2 = (i2, g2)"
            by (cases ig2)
          let ?g = "set_di i2 i1 distance (set_di i1 i2 distance g2)"
          from register_city_registered[OF r2[unfolded ig2] c1]
          have reg2: "registered g2 = insert city2 (registered g1)" and c2: "0 \<le> main_city_count g2"
            by auto
          have c2': "main_city_count g2 \<le> MAX_CITIES"
            by (rule register_city_count[OF r2[unfolded ig2] c1'])
          have "registered ?g \<union> set (names_of rest) = registered g \<union> set (names_of inp)"
            using reg1 reg2 names by (auto simp: registered_set_di)
          with many have many': "64 < card (registered ?g \<union> set (names_of rest))"
            by simp
          have "read_edges rest ?g = Undefined CitiesOverrun"
            using "1.IH"[OF Some lr[symmetric] Edge short r1 ig1[symmetric] _ ig2[symmetric]]
                  r2 ig1 c2 c2' many' by (simp add: set_di_count)
          with Some lr Edge short r1 ig1 r2 ig2 show ?thesis
            by (subst read_edges.simps) simp
        qed
      qed
    qed
  qed
qed

lemma route_64: "route 64 di = Undefined ShiftRange"
  by (simp add: route_def tsp_dp.simps)

lemma solve_tsp_64: "solve_tsp 64 di cities = Undefined ShiftRange"
  by (simp add: solve_tsp_def route_64)

lemma route_single: "route 1 di = Done (0, Some ([], 0, 1))"
  by (simp add: route_def tsp_dp.simps walk.simps shl_def init_tables_def NO_PATH_def)

lemma solve_tsp_single:
  "solve_tsp 1 di cities =
     Done [''We will visit the cities in the following order:'', ''Total cost: 0'']"
  by (simp add: solve_tsp_def route_single report_def decimal.simps digit_char_def)

section \<open>The claims\<close>

text \<open>
  Claim C1: the root call \<^verbatim>\<open>tsp_dp(0, {0})\<close> returns the minimum cost over the complete
  visiting orders, and \<open>NO_PATH\<close> exactly when there is none. On the three cities of
  \<open>di_isolated\<close> there is no complete visiting order (city 2 has no edge to another
  city), yet the root call returns 4, which is not \<open>NO_PATH\<close>: the dead end at city 1
  returns \<open>NO_PATH\<close>, line 61 adds the edge cost 5 to it, and the sum wraps to 4.
\<close>

theorem root_call_on_unreachable_city:
  "visiting_orders 3 di_isolated = []
   \<and> map_option fst (tsp_dp 0 1 3 di_isolated init_tables) = Some 4
   \<and> (4 :: u64) \<noteq> NO_PATH"
  by (simp add: visiting_orders_def upto.simps tsp_dp.simps scan.simps di_isolated_def
      init_tables_def NO_PATH_def shl_def)

text \<open>
  Claim C2: when the root result is not \<open>NO_PATH\<close>, the total cost printed is the sum of
  the edge costs emitted and equals the root result. On \<open>di_isolated\<close> the root result
  is 4, while the loop emits the single edge from city 0 to city 1 of cost 5 and prints
  the total 5.
\<close>

theorem total_differs_from_root_result:
  "route 3 di_isolated = Done (4, Some ([(0, 5, 1)], 5, 3))"
  by (simp add: route_def walk.simps tsp_dp.simps scan.simps di_isolated_def init_tables_def
      NO_PATH_def shl_def)

text \<open>
  Claim C3: every state reached during the search is computed at most once; an entry,
  once written, is never recomputed, and every later visit returns the cached value.
  \<open>di_two_orders\<close> is the matrix of the file \<^verbatim>\<open>A-B: 1\<close>, \<^verbatim>\<open>A-C: 1\<close>, \<^verbatim>\<open>B-C: 1\<close>, \<^verbatim>\<open>B-D: 1\<close>,
  \<^verbatim>\<open>C-D: 1\<close>, \<^verbatim>\<open>E-E: 1\<close>. Its state (city 3, visited 0-3) is a dead end: the value \<open>NO_PATH\<close>
  is written to its entry, and since \<open>NO_PATH\<close> is also the mark of an entry not yet
  computed (line 42), the second visit computes it again. The log of the root call
  holds that state twice.
\<close>

theorem dead_end_computed_twice:
  "map_option (\<lambda>(r, t). (dp t (3, 15), count_list (computed t) (3, 15)))
     (tsp_dp 0 1 5 di_two_orders init_tables) = Some (NO_PATH, 2)"
  by (simp add: tsp_dp.simps scan.simps di_two_orders_def init_tables_def NO_PATH_def shl_def)

text \<open>
  What the memo table does keep are the values other than \<open>NO_PATH\<close>. For every call of
  \<open>tsp_dp\<close> that returns: the value returned for a state that is not the full mask is
  the value its entry then holds; every entry that held a value other than \<open>NO_PATH\<close>
  before the call holds the same value and the same next city after it, and its state
  was not computed during the call; a later visit to a state with such an entry returns
  the entry and leaves the tables as they are. On tables that agree with the
  recursion the value returned is that of the recursion, whatever the tables hold, so it
  is the same at every visit. The call keeps \<open>computed_once\<close>, which holds of the fresh
  tables: in every table reached from them, a state whose entry is not \<open>NO_PATH\<close> has
  been computed exactly once.
\<close>

theorem cached_value_never_recomputed:
  assumes "tsp_dp current visited city_count di t = Some (r, t')"
  shows "(visited \<noteq> shl 1 city_count - 1 \<longrightarrow> dp t' (current, visited) = r)
         \<and> (dp t s \<noteq> NO_PATH \<longrightarrow> entry_kept t t' s)
         \<and> (dp t' (c, v) \<noteq> NO_PATH \<and> v \<noteq> shl 1 city_count - 1 \<longrightarrow>
               tsp_dp c v city_count di t' = Some (dp t' (c, v), t'))
         \<and> (valid city_count di t \<longrightarrow>
               r = fst (solve current visited city_count di) \<and> valid city_count di t')
         \<and> (computed_once city_count di t \<longrightarrow> computed_once city_count di t')"
proof -
  from assms have rng: "\<not> (city_count < 0 \<or> 64 \<le> city_count)"
    by (subst (asm) tsp_dp.simps) (auto split: if_splits)
  have "visited \<noteq> shl 1 city_count - 1 \<longrightarrow> dp t' (current, visited) = r"
    using returned_value_stored[OF assms] by simp
  moreover have "dp t s \<noteq> NO_PATH \<longrightarrow> entry_kept t t' s"
    using cached_kept(1)[OF assms] by simp
  moreover have "dp t' (c, v) \<noteq> NO_PATH \<and> v \<noteq> shl 1 city_count - 1 \<longrightarrow>
                   tsp_dp c v city_count di t' = Some (dp t' (c, v), t')"
    using cached_hit[OF rng] by simp
  moreover have "valid city_count di t \<longrightarrow>
                   r = fst (solve current visited city_count di) \<and> valid city_count di t'"
  proof
    assume "valid city_count di t"
    with tsp_dp_refines_solve(1)[of city_count di t current visited] rng assms
    show "r = fst (solve current visited city_count di) \<and> valid city_count di t'"
      by auto
  qed
  moreover have "computed_once city_count di t \<longrightarrow> computed_once city_count di t'"
    using computed_once_kept(1)[OF assms] by simp
  ultimately show ?thesis
    by blast
qed

text \<open>
  An instance on the triangle: the tables hold the value 10 of the state (city 1,
  visited 0-1) when the root call starts. The root call returns 15 and computes two
  other states; the entry is kept, and a visit to its state afterwards returns 10.
\<close>

theorem cached_value_never_recomputed_witness:
  "tsp_dp 0 1 3 di_triangle tables_b = Some (15, tables_root)
   \<and> dp tables_b (1, 3) = 10 \<and> (10 :: u64) \<noteq> NO_PATH
   \<and> dp tables_root (0, 1) = 15
   \<and> entry_kept tables_b tables_root (1, 3)
   \<and> tsp_dp 1 3 3 di_triangle tables_root = Some (10, tables_root)
   \<and> computed tables_root = [(1, 3), (2, 5), (0, 1)]
   \<and> computed_once 3 di_triangle tables_b \<and> computed_once 3 di_triangle tables_root"
proof -
  have "map_option fst (tsp_dp 1 3 3 di_triangle init_tables) = Some 10"
    by (simp add: tsp_dp.simps scan.simps di_triangle_def init_tables_def NO_PATH_def shl_def)
  then have "tsp_dp 1 3 3 di_triangle init_tables = Some (10, tables_b)"
    by (cases "tsp_dp 1 3 3 di_triangle init_tables") (auto simp: tables_b_def)
  from computed_once_kept(1)[OF this computed_once_init]
  have once_b: "computed_once 3 di_triangle tables_b" .
  have b: "dp tables_b (1, 3) = 10"
    by (simp add: tables_b_def tsp_dp.simps scan.simps di_triangle_def init_tables_def
        NO_PATH_def shl_def)
  have "map_option fst (tsp_dp 0 1 3 di_triangle tables_b) = Some 15"
    by (simp add: tables_b_def tsp_dp.simps scan.simps di_triangle_def init_tables_def
        NO_PATH_def shl_def)
  then have run: "tsp_dp 0 1 3 di_triangle tables_b = Some (15, tables_root)"
    by (cases "tsp_dp 0 1 3 di_triangle tables_b") (auto simp: tables_root_def)
  have log: "computed tables_root = [(1, 3), (2, 5), (0, 1)]"
    by (simp add: tables_root_def tables_b_def tsp_dp.simps scan.simps di_triangle_def
        init_tables_def NO_PATH_def shl_def)
  have ne: "(10 :: u64) \<noteq> NO_PATH" "(1 :: int) \<noteq> 0 \<or> (3 :: u64) \<noteq> 1"
    by (simp_all add: NO_PATH_def)
  have full: "(1 :: u64) \<noteq> shl 1 3 - 1" "(3 :: u64) \<noteq> shl 1 3 - 1"
    by (simp_all add: shl_def)
  from cached_value_never_recomputed[OF run, of "(1, 3)" 1 3] b ne full once_b
  have kept: "entry_kept tables_b tables_root (1, 3)"
    and root: "dp tables_root (0, 1) = 15"
    and hit: "dp tables_root (1, 3) \<noteq> NO_PATH \<longrightarrow>
                tsp_dp 1 3 3 di_triangle tables_root = Some (dp tables_root (1, 3), tables_root)"
    and once_root: "computed_once 3 di_triangle tables_root"
    by simp_all
  from kept b have "dp tables_root (1, 3) = 10"
    by (simp add: entry_kept_def)
  with hit ne have "tsp_dp 1 3 3 di_triangle tables_root = Some (10, tables_root)"
    by simp
  with run b ne root kept log once_b once_root show ?thesis
    by simp
qed

text \<open>
  Claim C4: the recorded best next city is always the smallest-index candidate achieving
  the minimum candidate cost. On \<open>di_zero_edge\<close> the root state has the single
  candidate 1, whose cost is \<open>0 + NO_PATH = NO_PATH\<close>; that is the minimum candidate cost
  and candidate 1 achieves it, but the incumbent \<open>NO_PATH\<close> is not replaced by an equal
  cost and the next city recorded is \<open>-1\<close>.
\<close>

theorem candidate_at_no_path_not_recorded:
  "candidates_from 0 0 1 3 di_zero_edge = [1]
   \<and> candidate_cost 0 1 3 di_zero_edge 1 = (1, NO_PATH)
   \<and> map_option (\<lambda>(r, t). (r, next_city t (0, 1))) (tsp_dp 0 1 3 di_zero_edge init_tables)
       = Some (NO_PATH, - 1)"
  by (simp add: candidates_from_def candidate_cost_def solve.simps upto.simps tsp_dp.simps
      scan.simps di_zero_edge_def init_tables_def NO_PATH_def shl_def)

text \<open>
  Claim C4, amended: candidates are examined in ascending index order and the incumbent
  is replaced only by a strictly smaller cost, so whenever some candidate cost is below
  \<open>NO_PATH\<close> the recorded next city is the smallest-index candidate achieving the minimum
  candidate cost, and that minimum is the value returned; when no candidate cost is
  below \<open>NO_PATH\<close> the value is \<open>NO_PATH\<close> and the recorded next city is \<open>-1\<close>. This holds
  for every state that is not the full mask, on all tables that agree with the
  recursion (the fresh tables do, and every call keeps the agreement).
\<close>

theorem first_minimum_wins:
  assumes "0 \<le> city_count" "city_count < 64" "valid city_count di t"
      and "visited \<noteq> shl 1 city_count - 1"
  shows "\<exists>r t'. tsp_dp current visited city_count di t = Some (r, t')
           \<and> first_minimum current visited city_count di r (next_city t' (current, visited))
           \<and> sorted (candidates_from 0 current visited city_count di)"
proof -
  let ?f = "\<lambda>k. snd (candidate_cost current visited city_count di k)"
  let ?ks = "candidates_from 0 current visited city_count di"
  obtain m b where mb: "solve current visited city_count di = (m, b)"
    by (cases "solve current visited city_count di")
  from tsp_dp_refines_solve(1)[OF assms(1,2,3), of current visited] mb obtain t' where
    run: "tsp_dp current visited city_count di t = Some (m, t')" and v': "valid city_count di t'"
    by auto
  have stored: "dp t' (current, visited) = m"
    by (rule returned_value_stored[OF run assms(4)])
  have fold: "foldl keep_first_min (NO_PATH, - 1) (map (\<lambda>k. (k, ?f k)) ?ks) = (m, b)"
    using solve_unfold[OF assms(1,2,4), of current di] mb by simp
  from first_min_choice[OF fold candidates_from_sorted]
  have "first_minimum current visited city_count di m (next_city t' (current, visited))"
  proof
    assume a: "m = NO_PATH \<and> b = - 1 \<and> (\<forall>k\<in>set ?ks. ?f k = NO_PATH)"
    then have "next_city t' (current, visited) = - 1"
      using valid_none[OF v', of current visited] stored by simp
    with a show ?thesis
      by (simp add: first_minimum_def)
  next
    assume a: "m < NO_PATH \<and> b \<in> set ?ks \<and> ?f b = m
                 \<and> (\<forall>k\<in>set ?ks. m \<le> ?f k \<and> (?f k = m \<longrightarrow> b \<le> k))"
    then have ne: "m \<noteq> NO_PATH"
      by auto
    then have "next_city t' (current, visited) = b"
      using valid_cached[OF v', of current visited] stored mb by simp
    with a ne show ?thesis
      by (simp add: first_minimum_def)
  qed
  with run candidates_from_sorted show ?thesis
    by blast
qed

text \<open>
  Witness for C4: the root state of the triangle on fresh tables. Its candidates are
  the cities 1 and 2, with costs 15 and 17.
\<close>

theorem first_minimum_wins_witness:
  "(0 :: int) \<le> 3 \<and> (3 :: int) < 64 \<and> valid 3 di_triangle init_tables
   \<and> (1 :: u64) \<noteq> shl 1 3 - 1
   \<and> map (candidate_cost 0 1 3 di_triangle) (candidates_from 0 0 1 3 di_triangle)
       = [(1, 15), (2, 17)]
   \<and> (\<exists>r t'. tsp_dp 0 1 3 di_triangle init_tables = Some (r, t')
          \<and> first_minimum 0 1 3 di_triangle r (next_city t' (0, 1))
          \<and> sorted (candidates_from 0 0 1 3 di_triangle))"
proof -
  have h: "(0 :: int) \<le> 3" "(3 :: int) < 64" "(1 :: u64) \<noteq> shl 1 3 - 1"
    by (simp_all add: shl_def)
  have v: "valid 3 di_triangle init_tables"
    by (rule valid_init)
  have c: "map (candidate_cost 0 1 3 di_triangle) (candidates_from 0 0 1 3 di_triangle)
             = [(1, 15), (2, 17)]"
    by (simp add: candidates_from_def candidate_cost_def solve.simps upto.simps
        keep_first_min_def di_triangle_def NO_PATH_def shl_def)
  from first_minimum_wins[OF h(1,2) v h(3), of 0] h v c show ?thesis
    by simp
qed

text \<open>
  Claim C5: after a result other than \<open>NO_PATH\<close>, the reconstruction loop reads \<open>-1\<close>
  exactly when the visited mask is full, and ends after \<open>N - 1\<close> edges with all \<open>N\<close>
  cities visited. On \<open>di_isolated\<close> (three cities) the result is not \<open>NO_PATH\<close>, and the
  loop reads \<open>-1\<close> and stops after one edge, with a mask that is not the full mask.
\<close>

theorem walk_stops_before_all_visited:
  "map_run (\<lambda>(result, w). (result \<noteq> NO_PATH,
              map_option (\<lambda>(edges, total_cost, visited).
                            (length edges, visited = shl 1 3 - 1)) w))
     (route 3 di_isolated) = Done (True, Some (1, False))"
  by (simp add: route_def walk.simps tsp_dp.simps scan.simps di_isolated_def init_tables_def
      NO_PATH_def shl_def)

text \<open>
  Claim C6: an input whose graph has no Hamiltonian path from city 0, in particular one
  with a city joined to no other city, makes the program print the single line
  \<^verbatim>\<open>No valid TSP route found.\<close> In the input below city \<open>C\<close> has no edge to \<open>A\<close> or \<open>B\<close>;
  the program prints a route of one edge and a total cost.
\<close>

theorem isolated_city_prints_a_route:
  "run_on [''A-B: 5'', ''C-C: 1'']
     = Done [''We will visit the cities in the following order:'',
             ''A -( 5 )-> B'',
             ''Total cost: 5'']
   \<and> exit_code (run_on [''A-B: 5'', ''C-C: 1'']) = Some 0"
  by code_simp

text \<open>
  Claim C7: 64 distinct cities are accepted and solved; 65 or more are rejected with the
  capacity error and exit code 1, by the check after the parse. In the code the 65th
  name is written to \<^verbatim>\<open>cities[64]\<close>, past the end of the array, before the check of line
  215 is reached: every input whose lines name more than 64 distinct cities ends in
  that undefined write, and no run of \<^verbatim>\<open>main\<close> ends with the capacity error. With 64
  cities \<^verbatim>\<open>solve_tsp\<close> shifts \<^verbatim>\<open>1ULL << 64\<close>, which is undefined as well.
\<close>

theorem too_many_names_overrun_cities:
  assumes "length argv = 2" "files (argv ! 1) = Some inp" "64 < card (set (names_of inp))"
  shows "main argv files = Undefined CitiesOverrun
         \<and> main argv' files' \<noteq> Fatal TooManyCities
         \<and> solve_tsp 64 di cities = Undefined ShiftRange"
proof -
  have "registered init_graph = {}"
    by (simp add: registered_def init_graph_def)
  with assms(3) have "64 < card (registered init_graph \<union> set (names_of inp))"
    by simp
  with too_many_names[of init_graph inp]
  have "read_edges inp init_graph = Undefined CitiesOverrun"
    by (simp add: init_graph_def MAX_CITIES_def)
  with assms(1,2) have "main argv files = Undefined CitiesOverrun"
    by (simp add: main_def)
  with main_never_capacity solve_tsp_64 show ?thesis
    by simp
qed

text \<open>Witness for C7: the file \<open>sixty_five_cities\<close>.\<close>

theorem too_many_names_overrun_cities_witness:
  "length [''./tsp_solver'', ''input.txt''] = 2
   \<and> 64 < card (set (names_of (text_file sixty_five_cities)))
   \<and> run_on sixty_five_cities = Undefined CitiesOverrun"
proof -
  have l: "length [''./tsp_solver'', ''input.txt''] = 2"
    by simp
  have c: "64 < card (set (names_of (text_file sixty_five_cities)))"
    by code_simp
  from too_many_names_overrun_cities[where argv = "[''./tsp_solver'', ''input.txt'']"
      and files = "\<lambda>name. if name = ''input.txt'' then Some (text_file sixty_five_cities)
                           else None"
      and inp = "text_file sixty_five_cities"]
    l c
  show ?thesis
    by (simp add: run_on_def)
qed

text \<open>
  Claim C8: inputs whose total cost could overflow 64 bits are rejected, so that no
  addition of an edge cost to a subresult wraps around. The input below is not
  rejected; the two costs add up to \<open>2^64\<close>, and the program prints the total 0.
\<close>

theorem overflowing_costs_accepted:
  "run_on [''A-B: 18446744073709551614'', ''B-C: 2'']
     = Done [''We will visit the cities in the following order:'',
             ''A -( 18446744073709551614 )-> B'',
             ''B -( 2 )-> C'',
             ''Total cost: 0'']"
  by code_simp

text \<open>
  Claim C8, amended: the program rejects no input for the size of its costs and adds
  modulo \<open>2^64\<close>. When every real edge costs at most \<open>B\<close> and \<open>N * B < 2^64 - 1\<close>, then in
  every candidate computation (any state, any candidate \<open>k\<close> of it, on tables that agree
  with the recursion) the recursive call returns, and if its subresult is not \<open>NO_PATH\<close>
  the addition of the edge cost to it does not wrap around and does not give
  \<open>NO_PATH\<close>.
\<close>

theorem bounded_costs_do_not_wrap:
  assumes "0 \<le> city_count" "city_count < 64"
      and "edge_costs_at_most di B"
      and "nat city_count * B < 2 ^ 64 - 1"
      and "valid city_count di t"
      and "k \<in> set (candidates_from 0 current visited city_count di)"
  shows "\<exists>sub t'. tsp_dp k (visited OR shl 1 k) city_count di t = Some (sub, t')
           \<and> (sub \<noteq> NO_PATH \<longrightarrow>
                 unat (di (current, k) + sub) = unat (di (current, k)) + unat sub
                 \<and> di (current, k) + sub \<noteq> NO_PATH)"
proof -
  define sub where "sub = fst (solve k (visited OR shl 1 k) city_count di)"
  from tsp_dp_refines_solve(1)[OF assms(1,2,5), of k "visited OR shl 1 k"] obtain t' where
    run: "tsp_dp k (visited OR shl 1 k) city_count di t = Some (sub, t')"
    unfolding sub_def by auto
  have "unat (di (current, k) + sub) = unat (di (current, k)) + unat sub
          \<and> di (current, k) + sub \<noteq> NO_PATH" if ne: "sub \<noteq> NO_PATH"
  proof -
    have edge: "di (current, k) \<noteq> NO_PATH"
      using assms(6) by (simp add: candidates_from_iff)
    have bd: "\<forall>i j. di (i, j) \<noteq> NO_PATH \<longrightarrow> unat (di (i, j)) \<le> B"
      using assms(3) by (simp add: edge_costs_at_most_def)
    have dB: "unat (di (current, k)) \<le> B"
      using bd edge by blast
    have rem: "remaining city_count (visited OR shl 1 k) < remaining city_count visited"
      by (rule remaining_candidate[OF assms(6,2)])
    have "unat sub \<le> remaining city_count (visited OR shl 1 k) * B"
      using solve_bound[OF bd assms(4,1,2), of k "visited OR shl 1 k"] ne by (simp add: sub_def)
    then have "unat (di (current, k)) + unat sub
                 \<le> (1 + remaining city_count (visited OR shl 1 k)) * B"
      using dB by simp
    also have "\<dots> \<le> remaining city_count visited * B"
      using rem by (intro mult_le_mono1) simp
    also have "\<dots> \<le> nat city_count * B"
      by (intro mult_le_mono1 remaining_le)
    finally have "unat (di (current, k)) + unat sub < 2 ^ 64 - 1"
      using assms(4) by simp
    then show ?thesis
      by (rule add_no_wrap)
  qed
  with run show ?thesis
    by blast
qed

text \<open>
  Witness for C8: the triangle, whose costs are at most 10, with \<open>3 * 10 < 2^64 - 1\<close>;
  the root state and its candidate 1, whose subresult is 10.
\<close>

theorem bounded_costs_do_not_wrap_witness:
  "(0 :: int) \<le> 3 \<and> (3 :: int) < 64
   \<and> edge_costs_at_most di_triangle 10
   \<and> nat 3 * 10 < (2 :: nat) ^ 64 - 1
   \<and> valid 3 di_triangle init_tables
   \<and> 1 \<in> set (candidates_from 0 0 1 3 di_triangle)
   \<and> map_option fst (tsp_dp 1 (1 OR shl 1 1) 3 di_triangle init_tables) = Some 10
   \<and> (\<exists>sub t'. tsp_dp 1 (1 OR shl 1 1) 3 di_triangle init_tables = Some (sub, t')
          \<and> (sub \<noteq> NO_PATH \<longrightarrow>
                unat (di_triangle (0, 1) + sub) = unat (di_triangle (0, 1)) + unat sub
                \<and> di_triangle (0, 1) + sub \<noteq> NO_PATH))"
proof -
  have h: "(0 :: int) \<le> 3" "(3 :: int) < 64" "nat 3 * 10 < (2 :: nat) ^ 64 - 1"
    by simp_all
  have bd: "edge_costs_at_most di_triangle 10"
    by (simp add: edge_costs_at_most_def di_triangle_def)
  have v: "valid 3 di_triangle init_tables"
    by (rule valid_init)
  have k: "1 \<in> set (candidates_from 0 0 1 3 di_triangle)"
    by (simp add: candidates_from_def upto.simps di_triangle_def NO_PATH_def shl_def)
  have s: "map_option fst (tsp_dp 1 (1 OR shl 1 1) 3 di_triangle init_tables) = Some 10"
    by (simp add: tsp_dp.simps scan.simps di_triangle_def init_tables_def NO_PATH_def shl_def)
  from bounded_costs_do_not_wrap[OF h(1,2) bd h(3) v k] h bd v k s show ?thesis
    by simp
qed

text \<open>
  Claim C9: a line with a city name longer than 511 characters ends the program with the
  name-too-long error. \<^verbatim>\<open>fgets\<close> reads at most 99 characters of a line and \<^verbatim>\<open>%511[^-]\<close>
  stores at most 511, so the test of line 186 never holds: a line that starts with a
  name of 512 characters ends the program with the read error of line 180, and no run
  of \<^verbatim>\<open>main\<close> ends with the name-too-long error.
\<close>

theorem long_name_is_a_read_error:
  "run_on [replicate 512 (CHR ''A'') @ ''-B: 1''] = Fatal ReadError
   \<and> exit_code (run_on [replicate 512 (CHR ''A'') @ ''-B: 1'']) = Some 1
   \<and> main argv files \<noteq> Fatal NameTooLong"
proof -
  have "run_on [replicate 512 (CHR ''A'') @ ''-B: 1''] = Fatal ReadError"
    by code_simp
  with main_never_name_too_long show ?thesis
    by simp
qed

text \<open>
  Claim C10: for an input that yields exactly one city, solve returns cost 0 and the
  printed itinerary contains just the start city, with total cost 0. The input below
  yields the one city \<open>A\<close>; the program prints the heading and the total, and no line
  that names \<open>A\<close>.
\<close>

theorem single_city_is_not_printed:
  "run_on [''A-A: 5'']
     = Done [''We will visit the cities in the following order:'', ''Total cost: 0'']
   \<and> CHR ''A'' \<notin> set (concat [''We will visit the cities in the following order:'',
                                ''Total cost: 0''])"
  by code_simp

text \<open>
  Claim C10, amended: for every input that yields exactly one city, the root call
  returns cost 0, the loop emits no edge and stops with total cost 0, and the program
  prints the heading followed by \<^verbatim>\<open>Total cost: 0\<close>; it prints no city.
\<close>

theorem single_city_report:
  assumes "length argv = 2" "files (argv ! 1) = Some inp"
      and "map_run main_city_count (read_edges inp init_graph) = Done 1"
  shows "route 1 di = Done (0, Some ([], 0, 1))
         \<and> main argv files
             = Done [''We will visit the cities in the following order:'', ''Total cost: 0'']"
proof -
  from assms(3) obtain g where g: "read_edges inp init_graph = Done g" "main_city_count g = 1"
    by (cases "read_edges inp init_graph") auto
  have "main argv files = solve_tsp 1 (main_di g) (main_cities g)"
    using assms(1,2) g by (simp add: main_def MAX_CITIES_def)
  then show ?thesis
    by (simp add: solve_tsp_single route_single)
qed

text \<open>Witness for C10: the file with the single line \<^verbatim>\<open>A-A: 5\<close>.\<close>

theorem single_city_report_witness:
  "length [''./tsp_solver'', ''input.txt''] = 2
   \<and> map_run main_city_count (read_edges (text_file [''A-A: 5'']) init_graph) = Done 1
   \<and> route 1 di_isolated = Done (0, Some ([], 0, 1))
   \<and> run_on [''A-A: 5'']
       = Done [''We will visit the cities in the following order:'', ''Total cost: 0'']"
proof -
  have c: "map_run main_city_count (read_edges (text_file [''A-A: 5'']) init_graph) = Done 1"
    by code_simp
  have l: "length [''./tsp_solver'', ''input.txt''] = 2"
    by simp
  from single_city_report[where argv = "[''./tsp_solver'', ''input.txt'']"
      and files = "\<lambda>name. if name = ''input.txt'' then Some (text_file [''A-A: 5'']) else None"
      and inp = "text_file [''A-A: 5'']" and di = di_isolated]
    l c
  show ?thesis
    by (simp add: run_on_def)
qed

end
